theory Spec2Isabelle
  imports Main
begin

section \<open>Data model\<close>

text \<open>
  A conflicting dimension is in one of three states: \<open>new\<close> (not present in the parent's
  space), \<open>changed\<close> (its prior differs between the two spaces) or \<open>missing\<close> (not
  present in the child's space). The source writes them as the strings \<open>'new'\<close>,
  \<open>'changed'\<close> and \<open>'missing'\<close>; none of the three is a substring of another, so the
  test \<open>c.status in 'missing'\<close> of \<open>rename_dimension\<close> is the same as membership in
  the one-element list.
\<close>

datatype status = New | Changed | Missing

text \<open>
  Modelled from the spec: the dimension descriptor and the Space of
  \<open>orion.algo.space\<close>, which are not part of the sources at hand. A descriptor is a
  name and an opaque prior, compared structurally. A Space is an ordered mapping from
  the name of each descriptor to the descriptor; it is represented by the list of its
  values in iteration order, and it is well formed when the names are distinct.
\<close>

record dimension =
  name :: string
  prior :: string

type_synonym space = "dimension list"

definition space_contains :: "space \<Rightarrow> string \<Rightarrow> bool" where
  "space_contains sp n = (n \<in> set (map name sp))"

definition space_values :: "space \<Rightarrow> dimension list" where
  "space_values sp = sp"

definition wf_space :: "space \<Rightarrow> bool" where
  "wf_space sp = distinct (map name sp)"

text \<open>Class \<open>Conflict\<close>: a fresh conflict is unsolved.\<close>

record conflict =
  is_solved :: bool
  dimension :: dimension
  status :: status

definition Conflict :: "status \<Rightarrow> dimension \<Rightarrow> conflict" where
  "Conflict st dim = \<lparr>is_solved = False, dimension = dim, status = st\<rparr>"

section \<open>Conflict detection\<close>

text \<open>
  \<open>_find_conflicts\<close>: the first loop runs over the child's (conflicting) space, the
  second over the parent's (experiment) space; each appends to \<open>self.conflicts\<close>.
\<close>

fun find_conflicts_child :: "space \<Rightarrow> dimension list \<Rightarrow> conflict list \<Rightarrow> conflict list" where
  "find_conflicts_child experiment_space [] conflicts = conflicts"
| "find_conflicts_child experiment_space (dim # dims) conflicts =
     find_conflicts_child experiment_space dims
       (if space_contains experiment_space (name dim)
        then (if dim \<notin> set (space_values experiment_space)
              then conflicts @ [Conflict Changed dim] else conflicts)
        else conflicts @ [Conflict New dim])"

fun find_conflicts_parent :: "space \<Rightarrow> dimension list \<Rightarrow> conflict list \<Rightarrow> conflict list" where
  "find_conflicts_parent conflicting_space [] conflicts = conflicts"
| "find_conflicts_parent conflicting_space (dim # dims) conflicts =
     find_conflicts_parent conflicting_space dims
       (if \<not> space_contains conflicting_space (name dim)
        then conflicts @ [Conflict Missing dim] else conflicts)"

definition find_conflicts :: "space \<Rightarrow> space \<Rightarrow> conflict list" where
  "find_conflicts experiment_space conflicting_space =
     find_conflicts_parent conflicting_space (space_values experiment_space)
       (find_conflicts_child experiment_space (space_values conflicting_space) [])"

text \<open>The name of the dimension a conflict is about, and the conflicts about one name.\<close>

definition cname :: "conflict \<Rightarrow> string" where
  "cname c = name (dimension c)"

definition conflicts_named :: "string \<Rightarrow> conflict list \<Rightarrow> conflict list" where
  "conflicts_named n cs = filter (\<lambda>c. cname c = n) cs"

section \<open>The builder's state\<close>

text \<open>
  Conflicts are mutable objects without an equality of their own, so Python compares
  them by identity. A reference to a conflict is its position in \<open>self.conflicts\<close>,
  a list that is only appended to by \<open>_find_conflicts\<close>. A payload of the operation
  log is one conflict (\<open>add\<close>, \<open>remove\<close>) or a tuple of two (\<open>rename\<close>).
  \<open>self.operations\<close> is a dictionary from the operation's name to the list of its
  payloads; it is an association list in insertion order.
\<close>

datatype error = ValueError | TypeError | IndexError

datatype operation = Add | Rename | Remove

datatype payload = Single nat | Pair nat nat

record builder =
  conflicts :: "conflict list"
  operations :: "(operation \<times> payload list) list"

text \<open>Dictionary access: \<open>d[k]\<close> for a key that is present, and \<open>d[k] = v\<close>.\<close>

fun dict_get :: "('k \<times> 'v list) list \<Rightarrow> 'k \<Rightarrow> 'v list" where
  "dict_get [] k = []"
| "dict_get ((k', v) # d) k = (if k' = k then v else dict_get d k)"

fun dict_set :: "('k \<times> 'v) list \<Rightarrow> 'k \<Rightarrow> 'v \<Rightarrow> ('k \<times> 'v) list" where
  "dict_set [] k v = [(k, v)]"
| "dict_set ((k', v') # d) k v = (if k' = k then (k, v) # d else (k', v') # dict_set d k v)"

definition dict_keys :: "('k \<times> 'v) list \<Rightarrow> 'k list" where
  "dict_keys d = map fst d"

text \<open>\<open>list.index\<close>: the first position of an element, failing when it is absent.\<close>

fun index_of :: "'a \<Rightarrow> 'a list \<Rightarrow> nat option" where
  "index_of x [] = None"
| "index_of x (y # ys) = (if y = x then Some 0 else map_option Suc (index_of x ys))"

text \<open>\<open>conflict.is_solved = v\<close> on the conflict behind a reference.\<close>

definition set_solved :: "nat \<Rightarrow> bool \<Rightarrow> conflict list \<Rightarrow> conflict list" where
  "set_solved r v cs = cs[r := (cs ! r)\<lparr>is_solved := v\<rparr>]"

text \<open>
  \<open>filter_conflicts\<close> and \<open>_filter_conflicts_status\<close>: the conflicts that pass, in the
  order of \<open>self.conflicts\<close>, each with its reference.
\<close>

definition filter_conflicts :: "builder \<Rightarrow> (conflict \<Rightarrow> bool) \<Rightarrow> (nat \<times> conflict) list" where
  "filter_conflicts s filter_function =
     filter (\<lambda>(r, c). filter_function c) (enumerate 0 (conflicts s))"

definition filter_conflicts_status :: "builder \<Rightarrow> status list \<Rightarrow> (nat \<times> conflict) list" where
  "filter_conflicts_status s st = filter_conflicts s (\<lambda>c. status c \<in> set st)"

text \<open>
  \<open>_assert_has_status\<close>: the position of the first conflict named \<open>'/' + name\<close> among
  those of the given statuses, with that filtered list; \<open>ValueError\<close> when there is
  none.
\<close>

definition assert_has_status ::
  "builder \<Rightarrow> string \<Rightarrow> status list \<Rightarrow> error + (nat \<times> (nat \<times> conflict) list)" where
  "assert_has_status s n st =
     (let prefixed_name = ''/'' @ n;
          filtered = filter_conflicts_status s st
      in case index_of prefixed_name (map (\<lambda>(r, c). cname c) filtered) of
           None \<Rightarrow> Inl ValueError
         | Some index \<Rightarrow> Inr (index, filtered))"

text \<open>
  A method that mutates the builder returns \<open>Inr\<close> with its result, or \<open>Inl\<close> with
  the exception and the state the builder is left in when the exception propagates.
\<close>

definition mark_as ::
  "builder \<Rightarrow> string \<Rightarrow> status list \<Rightarrow> bool \<Rightarrow> (error \<times> builder) + (nat \<times> builder)" where
  "mark_as s n st solved =
     (case assert_has_status s n st of
        Inl e \<Rightarrow> Inl (e, s)
      | Inr (index, filtered) \<Rightarrow>
          (let conflict = fst (filtered ! index)
           in Inr (conflict, s\<lparr>conflicts := set_solved conflict solved (conflicts s)\<rparr>)))"

definition mark_as_solved ::
  "builder \<Rightarrow> string \<Rightarrow> status list \<Rightarrow> (error \<times> builder) + (nat \<times> builder)" where
  "mark_as_solved s n st = mark_as s n st True"

definition put_operation :: "builder \<Rightarrow> operation \<Rightarrow> payload \<Rightarrow> builder" where
  "put_operation s operation_name args =
     (let ops = (if operation_name \<notin> set (dict_keys (operations s))
                 then dict_set (operations s) operation_name []
                 else operations s)
      in if args \<notin> set (dict_get ops operation_name)
         then s\<lparr>operations := dict_set ops operation_name (dict_get ops operation_name @ [args])\<rparr>
         else s\<lparr>operations := ops\<rparr>)"

section \<open>Name, keyword and wildcard expansion\<close>

text \<open>\<open>str.split(sep)\<close> for a one-character separator, and \<open>str.startswith\<close>.\<close>

fun split_on :: "char \<Rightarrow> string \<Rightarrow> string list" where
  "split_on sep [] = [[]]"
| "split_on sep (c # cs) =
     (if c = sep then [] # split_on sep cs
      else (case split_on sep cs of [] \<Rightarrow> [[c]] | t # ts \<Rightarrow> (c # t) # ts))"

definition startswith :: "string \<Rightarrow> string \<Rightarrow> bool" where
  "startswith str pre = (take (length pre) str = pre)"

definition special_keywords :: "(string \<times> status) list" where
  "special_keywords = [(''~new'', New), (''~changed'', Changed), (''~missing'', Missing)]"

text \<open>
  \<open>_extend_special_keywords\<close> receives the status the keyword stands for (the lookup
  \<open>self.special_keywords[arg]\<close> is made by the caller below, which has just tested the
  key); \<open>name[1:]\<close> drops the first character.
\<close>

definition extend_special_keywords :: "builder \<Rightarrow> status \<Rightarrow> string list \<Rightarrow> string list" where
  "extend_special_keywords s keyword_status names =
     names @ map (\<lambda>(r, c). drop 1 (cname c)) (filter_conflicts_status s [keyword_status])"

definition extend_wildcard :: "builder \<Rightarrow> string \<Rightarrow> string list \<Rightarrow> status list \<Rightarrow> string list" where
  "extend_wildcard s arg names st =
     (let pre = ''/'' @ hd (split_on CHR ''*'' arg);
          filtered_conflicts =
            filter_conflicts s (\<lambda>c. startswith (cname c) pre \<and> status c \<in> set st)
      in names @ map (\<lambda>(r, c). drop 1 (cname c)) filtered_conflicts)"

fun get_names_loop :: "builder \<Rightarrow> status list \<Rightarrow> string list \<Rightarrow> string list \<Rightarrow> string list" where
  "get_names_loop s st [] names = names"
| "get_names_loop s st (arg # args) names =
     get_names_loop s st args
       (case map_of special_keywords arg of
          Some keyword_status \<Rightarrow> extend_special_keywords s keyword_status names
        | None \<Rightarrow>
            if CHR ''*'' \<in> set arg then extend_wildcard s arg names st
            else [arg])"

definition get_names :: "builder \<Rightarrow> string \<Rightarrow> status list \<Rightarrow> string list" where
  "get_names s n st = get_names_loop s st (split_on CHR '' '' n) []"

section \<open>The public operations\<close>

fun do_basic_loop ::
  "string list \<Rightarrow> status list \<Rightarrow> operation \<Rightarrow> builder \<Rightarrow> (error \<times> builder) + builder" where
  "do_basic_loop [] st operation s = Inr s"
| "do_basic_loop (n # ns) st operation s =
     (case mark_as_solved s n st of
        Inl e \<Rightarrow> Inl e
      | Inr (conflict, s1) \<Rightarrow>
          do_basic_loop ns st operation (put_operation s1 operation (Single conflict)))"

definition do_basic ::
  "builder \<Rightarrow> string \<Rightarrow> status list \<Rightarrow> operation \<Rightarrow> (error \<times> builder) + builder" where
  "do_basic s n st operation = do_basic_loop (get_names s n st) st operation s"

definition add_dimension :: "builder \<Rightarrow> string \<Rightarrow> (error \<times> builder) + builder" where
  "add_dimension s args = do_basic s args [New, Changed] Add"

definition remove_dimension :: "builder \<Rightarrow> string \<Rightarrow> (error \<times> builder) + builder" where
  "remove_dimension s n = do_basic s n [Missing] Remove"

text \<open>
  \<open>_remove_from_operations\<close>, the branch for the \<open>rename\<close> list: a \<open>for\<close> loop over
  the list that removes from the same list. Python's list iterator keeps a position,
  reads the element there while the position is inside the list as it is now, and
  advances by one; \<open>list.remove\<close> deletes the first element equal to its argument.
  Unpacking \<open>old, new = value\<close> raises \<open>TypeError\<close> on a payload that is not a tuple.
\<close>

function rename_scan :: "nat \<Rightarrow> nat \<Rightarrow> builder \<Rightarrow> (error \<times> builder) + builder" where
  "rename_scan i arg s =
     (if i < length (dict_get (operations s) Rename)
      then (case dict_get (operations s) Rename ! i of
              Single c \<Rightarrow> Inl (TypeError, s)
            | Pair old new \<Rightarrow>
                if arg = old \<or> arg = new
                then rename_scan (Suc i) arg
                       (s\<lparr>conflicts := set_solved new False (set_solved old False (conflicts s)),
                          operations := dict_set (operations s) Rename
                                          (remove1 (Pair old new) (dict_get (operations s) Rename))\<rparr>)
                else rename_scan (Suc i) arg s)
      else Inr s)"
  by pat_completeness auto

text \<open>
  \<open>_remove_from_operations\<close>: the outer loop over the keys of \<open>self.operations\<close>
  (the keys do not change while it runs).
\<close>

fun remove_from_operations_loop ::
  "operation list \<Rightarrow> nat \<Rightarrow> builder \<Rightarrow> (error \<times> builder) + builder" where
  "remove_from_operations_loop [] arg s = Inr s"
| "remove_from_operations_loop (operation # rest) arg s =
     (if operation = Rename
      then (case rename_scan 0 arg s of
              Inl e \<Rightarrow> Inl e
            | Inr s1 \<Rightarrow> remove_from_operations_loop rest arg s1)
      else if Single arg \<in> set (dict_get (operations s) operation)
      then remove_from_operations_loop rest arg
             (s\<lparr>conflicts := set_solved arg False (conflicts s),
                operations := dict_set (operations s) operation
                                (remove1 (Single arg) (dict_get (operations s) operation))\<rparr>)
      else remove_from_operations_loop rest arg s)"

definition remove_from_operations :: "builder \<Rightarrow> nat \<Rightarrow> (error \<times> builder) + builder" where
  "remove_from_operations s arg =
     remove_from_operations_loop (dict_keys (operations s)) arg s"

text \<open>
  \<open>reset_dimension\<close>: the loop runs once for each expanded name, and its body looks
  up \<open>arg\<close>, the whole argument string, not the loop variable \<open>_name\<close>.
\<close>

fun reset_dimension_loop ::
  "string list \<Rightarrow> string \<Rightarrow> status list \<Rightarrow> builder \<Rightarrow> (error \<times> builder) + builder" where
  "reset_dimension_loop [] arg st s = Inr s"
| "reset_dimension_loop (n # ns) arg st s =
     (case mark_as s arg st False of
        Inl e \<Rightarrow> Inl e
      | Inr (conflict, s1) \<Rightarrow>
          (case remove_from_operations s1 conflict of
             Inl e \<Rightarrow> Inl e
           | Inr s2 \<Rightarrow> reset_dimension_loop ns arg st s2))"

definition reset_dimension :: "builder \<Rightarrow> string \<Rightarrow> (error \<times> builder) + builder" where
  "reset_dimension s arg =
     (let st = [Missing, New, Changed]
      in reset_dimension_loop (get_names s arg st) arg st s)"

definition rename_dimension :: "builder \<Rightarrow> string \<times> string \<Rightarrow> (error \<times> builder) + builder" where
  "rename_dimension s args =
     (case args of (old, new) \<Rightarrow>
        (case assert_has_status s old [Missing] of
           Inl e \<Rightarrow> Inl (e, s)
         | Inr (old_index, missing_conflicts) \<Rightarrow>
             (case assert_has_status s new [New] of
                Inl e \<Rightarrow> Inl (e, s)
              | Inr (new_index, new_conflicts) \<Rightarrow>
                  (let old_conflict = fst (missing_conflicts ! old_index);
                       new_conflict = fst (new_conflicts ! new_index)
                   in Inr (put_operation
                             (s\<lparr>conflicts := set_solved new_conflict True
                                               (set_solved old_conflict True (conflicts s))\<rparr>)
                             Rename (Pair old_conflict new_conflict))))))"

definition get_dimension_conflict :: "builder \<Rightarrow> string \<Rightarrow> error + nat" where
  "get_dimension_conflict s n =
     (case index_of (''/'' @ n) (map cname (conflicts s)) of
        None \<Rightarrow> Inl ValueError
      | Some index \<Rightarrow> Inr index)"

text \<open>
  \<open>create_adaptors\<close>: the three adaptor methods are stubs whose bodies are \<open>pass\<close>, so
  each returns \<open>None\<close>. The loops fill the local list \<open>adaptors\<close>; the method has no
  \<open>return\<close> statement, so what it returns is \<open>None\<close>.
\<close>

datatype pyvalue = PyNone | PyList "pyvalue list"

definition add_adaptor :: "builder \<Rightarrow> payload \<Rightarrow> pyvalue" where
  "add_adaptor s conflict = PyNone"

definition rename_adaptor :: "builder \<Rightarrow> payload \<Rightarrow> pyvalue" where
  "rename_adaptor s conflict = PyNone"

definition remove_adaptor :: "builder \<Rightarrow> payload \<Rightarrow> pyvalue" where
  "remove_adaptor s conflict = PyNone"

fun operations_mapping :: "operation \<Rightarrow> builder \<Rightarrow> payload \<Rightarrow> pyvalue" where
  "operations_mapping Add = add_adaptor"
| "operations_mapping Rename = rename_adaptor"
| "operations_mapping Remove = remove_adaptor"

definition create_adaptors_list :: "builder \<Rightarrow> pyvalue list" where
  "create_adaptors_list s =
     concat (map (\<lambda>operation.
                    map (operations_mapping operation s) (dict_get (operations s) operation))
                 (dict_keys (operations s)))"

definition create_adaptors :: "builder \<Rightarrow> pyvalue" where
  "create_adaptors s = (let adaptors = create_adaptors_list s in PyNone)"

text \<open>The payloads recorded in the whole operation log.\<close>

definition recorded_payloads :: "builder \<Rightarrow> payload list" where
  "recorded_payloads s = concat (map snd (operations s))"

section \<open>Sessions\<close>

text \<open>
  A session starts from the state after detection and is a sequence of calls of the
  public operations. An exception leaves the builder as it was when it was raised.
\<close>

definition init_builder :: "space \<Rightarrow> space \<Rightarrow> builder" where
  "init_builder experiment_space conflicting_space =
     \<lparr>conflicts = find_conflicts experiment_space conflicting_space, operations = []\<rparr>"

datatype call =
    AddDimension string
  | RemoveDimension string
  | ResetDimension string
  | RenameDimension string string

fun perform :: "call \<Rightarrow> builder \<Rightarrow> (error \<times> builder) + builder" where
  "perform (AddDimension a) s = add_dimension s a"
| "perform (RemoveDimension a) s = remove_dimension s a"
| "perform (ResetDimension a) s = reset_dimension s a"
| "perform (RenameDimension old new) s = rename_dimension s (old, new)"

fun state_after :: "(error \<times> builder) + builder \<Rightarrow> builder" where
  "state_after (Inl (e, s)) = s"
| "state_after (Inr s) = s"

fun run :: "call list \<Rightarrow> builder \<Rightarrow> builder" where
  "run [] s = s"
| "run (c # cs) s = run cs (state_after (perform c s))"

section \<open>The directive parser\<close>

text \<open>
  \<open>keyword in arg\<close> for strings is the substring test; \<open>arg.replace('~+', '~')\<close>
  rewrites every occurrence of the two characters, left to right.
\<close>

fun contains :: "string \<Rightarrow> string \<Rightarrow> bool" where
  "contains keyword [] = (keyword = [])"
| "contains keyword (c # cs) = (startswith (c # cs) keyword \<or> contains keyword cs)"

fun replace_add_marker :: "string \<Rightarrow> string" where
  "replace_add_marker (x # y # zs) =
     (if x = CHR ''~'' \<and> y = CHR ''+'' then CHR ''~'' # replace_add_marker zs
      else x # replace_add_marker (y # zs))"
| "replace_add_marker xs = xs"

text \<open>
  The parser's state: the argument list it mutates, the local list \<open>to_delete\<close>, and
  the dictionary \<open>self.commandline_keywords\<close>, whose keys are \<open>~+\<close>, \<open>~-\<close> and \<open>~>\<close>
  in this order.
\<close>

record parser =
  args :: "string list"
  to_delete :: "nat list"
  commandline_keywords :: "(string \<times> string list) list"

definition init_commandline_keywords :: "(string \<times> string list) list" where
  "init_commandline_keywords = [(''~+'', []), (''~-'', []), (''~>'', [])]"

fun keyword_loop :: "string list \<Rightarrow> string \<Rightarrow> parser \<Rightarrow> error + parser" where
  "keyword_loop [] arg p = Inr p"
| "keyword_loop (keyword # keywords) arg p =
     (if contains keyword arg
      then (let p1 = p\<lparr>commandline_keywords :=
                        dict_set (commandline_keywords p) keyword
                          (dict_get (commandline_keywords p) keyword @ [arg])\<rparr>
            in case index_of arg (args p1) of
                 None \<Rightarrow> Inl ValueError
               | Some index \<Rightarrow>
                   if keyword = ''~+''
                   then keyword_loop keywords arg
                          (p1\<lparr>args := (args p1)[index := replace_add_marker arg]\<rparr>)
                   else keyword_loop keywords arg
                          (p1\<lparr>to_delete := to_delete p1 @ [index]\<rparr>))
      else keyword_loop keywords arg p)"

text \<open>
  The loop \<open>for arg in args\<close> reads the list by position while the body assigns to
  its elements.
\<close>

function arg_loop :: "nat \<Rightarrow> parser \<Rightarrow> error + parser" where
  "arg_loop i p =
     (if i < length (args p)
      then (case keyword_loop (dict_keys (commandline_keywords p)) (args p ! i) p of
              Inl e \<Rightarrow> Inl e
            | Inr p1 \<Rightarrow> arg_loop (Suc i) p1)
      else Inr p)"
  by pat_completeness auto

text \<open>\<open>del args[i]\<close> for each position, largest first; a position outside the list raises.\<close>

fun del_loop :: "nat list \<Rightarrow> string list \<Rightarrow> error + string list" where
  "del_loop [] xs = Inr xs"
| "del_loop (i # rest) xs =
     (if i < length xs then del_loop rest (take i xs @ drop (Suc i) xs)
      else Inl IndexError)"

definition interpret_commandline :: "string list \<Rightarrow> error + parser" where
  "interpret_commandline user_args =
     (case arg_loop 0 \<lparr>args = user_args, to_delete = [],
                       commandline_keywords = init_commandline_keywords\<rparr> of
        Inl e \<Rightarrow> Inl e
      | Inr p \<Rightarrow>
          (case del_loop (rev (sort (to_delete p))) (args p) of
             Inl e \<Rightarrow> Inl e
           | Inr xs \<Rightarrow> Inr (p\<lparr>args := xs\<rparr>)))"

section \<open>Vocabulary of the properties\<close>

text \<open>
  What identifies the members of the conflict set (everything but the flag
  \<open>is_solved\<close>), and the reference that \<open>_assert_has_status\<close> resolves a name to.
\<close>

definition conflict_keys :: "conflict list \<Rightarrow> (dimension \<times> status) list" where
  "conflict_keys cs = map (\<lambda>c. (dimension c, status c)) cs"

definition lookup :: "builder \<Rightarrow> string \<Rightarrow> status list \<Rightarrow> nat option" where
  "lookup s n st =
     (case assert_has_status s n st of
        Inl e \<Rightarrow> None
      | Inr (index, filtered) \<Rightarrow> Some (fst (filtered ! index)))"

text \<open>
  A token of the names string is literal when it is neither a status keyword nor a
  wildcard pattern. \<open>from_last_literal\<close> is the part of a token list that starts at
  its last literal token, or the whole list when no token is literal.
\<close>

definition is_literal :: "string \<Rightarrow> bool" where
  "is_literal arg = (map_of special_keywords arg = None \<and> CHR ''*'' \<notin> set arg)"

fun from_last_literal :: "string list \<Rightarrow> string list" where
  "from_last_literal [] = []"
| "from_last_literal (t # ts) =
     (if list_ex is_literal ts then from_last_literal ts else t # ts)"

text \<open>
  A payload mentions a conflict when it is that conflict or a pair with it on either
  side. The \<open>rename\<close> list is well typed when all its payloads are pairs.
\<close>

fun mentions :: "nat \<Rightarrow> payload \<Rightarrow> bool" where
  "mentions r (Single c) = (r = c)"
| "mentions r (Pair old new) = (r = old \<or> r = new)"

fun is_pair :: "payload \<Rightarrow> bool" where
  "is_pair (Single c) = False"
| "is_pair (Pair old new) = True"

definition rename_typed :: "builder \<Rightarrow> bool" where
  "rename_typed s = list_all is_pair (dict_get (operations s) Rename)"

text \<open>
  What \<open>_remove_from_operations\<close> looks for in the list of an operation: in the
  \<open>rename\<close> list the pairs with the conflict on either side, in another list the
  conflict itself. \<open>purge\<close> is a list without these payloads, and a conflict is
  affected when a payload that is looked for mentions it.
\<close>

definition hits :: "nat \<Rightarrow> operation \<Rightarrow> payload \<Rightarrow> bool" where
  "hits r k p = (if k = Rename then mentions r p else p = Single r)"

definition purge :: "nat \<Rightarrow> operation \<Rightarrow> payload list \<Rightarrow> payload list" where
  "purge r k vs = filter (\<lambda>p. \<not> hits r k p) vs"

definition affected :: "nat \<Rightarrow> builder \<Rightarrow> nat \<Rightarrow> bool" where
  "affected r s j =
     list_ex (\<lambda>k. list_ex (\<lambda>p. hits r k p \<and> mentions j p) (dict_get (operations s) k))
       [Add, Rename, Remove]"

text \<open>
  The state \<open>t\<close> of the loop of \<open>_remove_from_operations\<close> that started in \<open>s0\<close>, once
  the operations in \<open>ds\<close> have been gone through.
\<close>

definition purge_inv :: "nat \<Rightarrow> builder \<Rightarrow> operation set \<Rightarrow> builder \<Rightarrow> bool" where
  "purge_inv r s0 ds t =
     (dict_keys (operations t) = dict_keys (operations s0)
      \<and> length (conflicts t) = length (conflicts s0)
      \<and> (\<forall>k. dict_get (operations t) k =
                (if k \<in> ds then purge r k (dict_get (operations s0) k)
                 else dict_get (operations s0) k))
      \<and> (\<forall>j < length (conflicts s0).
            conflicts t ! j =
              (if \<exists>k \<in> ds. \<exists>p \<in> set (dict_get (operations s0) k). hits r k p \<and> mentions j p
               then (conflicts s0 ! j)\<lparr>is_solved := False\<rparr>
               else conflicts s0 ! j)))"

text \<open>No operation list holds a payload twice.\<close>

definition distinct_lists :: "builder \<Rightarrow> bool" where
  "distinct_lists s =
     list_all (\<lambda>k. distinct (dict_get (operations s) k)) [Add, Rename, Remove]"

section \<open>An example session\<close>

text \<open>
  The two spaces of the end-to-end example, with one more dimension that is the same
  in both: the parent has \<open>missing\<close>, \<open>changed\<close> and \<open>same\<close>, the child has \<open>new\<close>,
  \<open>changed\<close> with another prior, and \<open>same\<close>.
\<close>

definition example_parent :: space where
  "example_parent =
     [\<lparr>name = ''/missing'', prior = ''uniform(-10,10)''\<rparr>,
      \<lparr>name = ''/changed'', prior = ''uniform(-10,10)''\<rparr>,
      \<lparr>name = ''/same'', prior = ''uniform(0,1)''\<rparr>]"

definition example_child :: space where
  "example_child =
     [\<lparr>name = ''/new'', prior = ''normal(0,2)''\<rparr>,
      \<lparr>name = ''/changed'', prior = ''normal(0,2)''\<rparr>,
      \<lparr>name = ''/same'', prior = ''uniform(0,1)''\<rparr>]"

definition example_builder :: builder where
  "example_builder = init_builder example_parent example_child"

text \<open>
  The wildcard scenario: the conflicts \<open>new:/db.host\<close>, \<open>new:/db.port\<close> and
  \<open>missing:/cache.ttl\<close>, none solved, and an empty operation log.
\<close>

definition scenario_builder :: builder where
  "scenario_builder =
     \<lparr>conflicts =
        [Conflict New \<lparr>name = ''/db.host'', prior = ''uniform(0,1)''\<rparr>,
         Conflict New \<lparr>name = ''/db.port'', prior = ''uniform(0,1)''\<rparr>,
         Conflict Missing \<lparr>name = ''/cache.ttl'', prior = ''uniform(0,1)''\<rparr>],
      operations = []\<rparr>"

section \<open>Termination of the loops over lists that change\<close>

lemma dict_get_dict_set: "dict_get (dict_set d k v) k = v"
  by (induction d) auto

lemma length_remove1_nth: "i < length xs \<Longrightarrow> length (remove1 (xs ! i) xs) < length xs"
  by (simp add: length_remove1)

termination rename_scan
proof (relation "measure (\<lambda>(i, arg, s). length (dict_get (operations s) Rename) - i)")
  show "wf (measure (\<lambda>(i, arg, s). length (dict_get (operations s) Rename) - i))"
    by simp
next
  fix i arg :: nat and s :: builder and old new :: nat
  assume lt: "i < length (dict_get (operations s) Rename)"
    and at: "dict_get (operations s) Rename ! i = Pair old new"
  from length_remove1_nth [OF lt] at
  have "length (remove1 (Pair old new) (dict_get (operations s) Rename))
          < length (dict_get (operations s) Rename)"
    by simp
  with lt
  show "((Suc i, arg,
          s\<lparr>conflicts := set_solved new False (set_solved old False (conflicts s)),
            operations := dict_set (operations s) Rename
                            (remove1 (Pair old new) (dict_get (operations s) Rename))\<rparr>),
         (i, arg, s))
        \<in> measure (\<lambda>(i, arg, s). length (dict_get (operations s) Rename) - i)"
    by (simp add: dict_get_dict_set)
next
  fix i arg :: nat and s :: builder and old new :: nat
  assume "i < length (dict_get (operations s) Rename)"
  then show "((Suc i, arg, s), (i, arg, s))
        \<in> measure (\<lambda>(i, arg, s). length (dict_get (operations s) Rename) - i)"
    by simp
qed

lemma keyword_loop_length:
  "keyword_loop ks arg p = Inr p1 \<Longrightarrow> length (args p1) = length (args p)"
  by (induction ks arbitrary: p) (auto simp: Let_def split: if_splits option.splits)

termination arg_loop
proof (relation "measure (\<lambda>(i, p). length (args p) - i)")
  show "wf (measure (\<lambda>(i, p). length (args p) - i))"
    by simp
next
  fix i :: nat and p p1 :: parser
  assume "i < length (args p)"
    and "keyword_loop (dict_keys (commandline_keywords p)) (args p ! i) p = Inr p1"
  then show "((Suc i, p1), (i, p)) \<in> measure (\<lambda>(i, p). length (args p) - i)"
    by (simp add: keyword_loop_length)
qed

section \<open>Conflict detection classifies every name once\<close>

lemma find_conflicts_child_eq:
  "find_conflicts_child es dims acc =
     acc @ map (\<lambda>d. Conflict (if space_contains es (name d) then Changed else New) d)
             (filter (\<lambda>d. space_contains es (name d) \<longrightarrow> d \<notin> set (space_values es)) dims)"
  by (induction dims arbitrary: acc) auto

lemma find_conflicts_parent_eq:
  "find_conflicts_parent cs dims acc =
     acc @ map (Conflict Missing) (filter (\<lambda>d. \<not> space_contains cs (name d)) dims)"
  by (induction dims arbitrary: acc) auto

lemma find_conflicts_eq:
  "find_conflicts parent child =
     map (\<lambda>d. Conflict (if space_contains parent (name d) then Changed else New) d)
       (filter (\<lambda>d. space_contains parent (name d) \<longrightarrow> d \<notin> set parent) child)
     @ map (Conflict Missing) (filter (\<lambda>d. \<not> space_contains child (name d)) parent)"
  by (simp add: find_conflicts_def find_conflicts_child_eq find_conflicts_parent_eq
      space_values_def)

lemma cname_Conflict [simp]: "cname (Conflict st d) = name d"
  by (simp add: cname_def Conflict_def)

lemma status_Conflict [simp]: "status (Conflict st d) = st"
  by (simp add: Conflict_def)

lemma filter_name_absent:
  "n \<notin> set (map name xs) \<Longrightarrow> filter (\<lambda>x. name x = n \<and> Q x) xs = []"
  by (induction xs) auto

lemma filter_name_present:
  "distinct (map name xs) \<Longrightarrow> d \<in> set xs \<Longrightarrow>
     filter (\<lambda>x. name x = name d \<and> Q x) xs = (if Q d then [d] else [])"
proof (induction xs)
  case Nil
  then show ?case by simp
next
  case (Cons x xs)
  show ?case
  proof (cases "x = d")
    case True
    with Cons.prems have "name d \<notin> set (map name xs)" by simp
    then have "filter (\<lambda>x. name x = name d \<and> Q x) xs = []"
      by (rule filter_name_absent)
    with True show ?thesis by simp
  next
    case False
    with Cons.prems have "d \<in> set xs" "name x \<noteq> name d" by auto
    with Cons show ?thesis by simp
  qed
qed

lemma conflicts_named_find_conflicts:
  "conflicts_named n (find_conflicts parent child) =
     map (\<lambda>d. Conflict (if space_contains parent (name d) then Changed else New) d)
       (filter (\<lambda>d. name d = n \<and> (space_contains parent (name d) \<longrightarrow> d \<notin> set parent)) child)
     @ map (Conflict Missing) (filter (\<lambda>d. name d = n \<and> \<not> space_contains child (name d)) parent)"
  by (simp add: conflicts_named_def find_conflicts_eq filter_map comp_def conj_commute)

lemma distinct_names_find_conflicts:
  assumes "wf_space parent" and "wf_space child"
  shows "distinct (map cname (find_conflicts parent child))"
proof -
  have "distinct (map name (filter (\<lambda>d. space_contains parent (name d) \<longrightarrow> d \<notin> set parent) child))"
    using assms(2) by (simp add: wf_space_def distinct_map_filter)
  moreover have "distinct (map name (filter (\<lambda>d. \<not> space_contains child (name d)) parent))"
    using assms(1) by (simp add: wf_space_def distinct_map_filter)
  ultimately show ?thesis
    by (auto simp: find_conflicts_eq comp_def space_contains_def) (metis imageI)
qed

text \<open>
  C1: for well-formed parent and child spaces, conflict detection emits exactly one
  conflict for a name present only in the child, of status \<open>new\<close>, exactly one for a
  name present only in the parent, of status \<open>missing\<close>, exactly one for a name
  present in both with unequal descriptors, of status \<open>changed\<close>, and none for a
  name present in both with equal descriptors; the emitted conflict is unsolved and
  carries the descriptor of the child (of the parent when \<open>missing\<close>); no two
  conflicts have the same name and status.
\<close>

theorem find_conflicts_classification:
  assumes "wf_space parent" and "wf_space child"
  shows "(d \<in> set (space_values child) \<and> \<not> space_contains parent (name d) \<longrightarrow>
            conflicts_named (name d) (find_conflicts parent child)
              = [\<lparr>is_solved = False, dimension = d, status = New\<rparr>])
       \<and> (d \<in> set (space_values parent) \<and> \<not> space_contains child (name d) \<longrightarrow>
            conflicts_named (name d) (find_conflicts parent child)
              = [\<lparr>is_solved = False, dimension = d, status = Missing\<rparr>])
       \<and> (d \<in> set (space_values child) \<and> p \<in> set (space_values parent)
            \<and> name p = name d \<and> p \<noteq> d \<longrightarrow>
            conflicts_named (name d) (find_conflicts parent child)
              = [\<lparr>is_solved = False, dimension = d, status = Changed\<rparr>])
       \<and> (d \<in> set (space_values child) \<and> d \<in> set (space_values parent) \<longrightarrow>
            conflicts_named (name d) (find_conflicts parent child) = [])
       \<and> distinct (map (\<lambda>c. (cname c, status c)) (find_conflicts parent child))"
proof (intro conjI impI)
  assume h: "d \<in> set (space_values child) \<and> \<not> space_contains parent (name d)"
  then have "name d \<notin> set (map name parent)" by (simp add: space_contains_def)
  then have "filter (\<lambda>x. name x = name d \<and> \<not> space_contains child (name x)) parent = []"
    by (rule filter_name_absent)
  moreover have "filter (\<lambda>x. name x = name d \<and> (space_contains parent (name x) \<longrightarrow> x \<notin> set parent)) child = [d]"
    using filter_name_present [of child d "\<lambda>x. space_contains parent (name x) \<longrightarrow> x \<notin> set parent"]
      assms(2) h by (simp add: wf_space_def space_values_def)
  ultimately show "conflicts_named (name d) (find_conflicts parent child)
              = [\<lparr>is_solved = False, dimension = d, status = New\<rparr>]"
    using h by (simp add: conflicts_named_find_conflicts Conflict_def)
next
  assume h: "d \<in> set (space_values parent) \<and> \<not> space_contains child (name d)"
  then have "name d \<notin> set (map name child)" by (simp add: space_contains_def)
  then have "filter (\<lambda>x. name x = name d \<and> (space_contains parent (name x) \<longrightarrow> x \<notin> set parent)) child = []"
    by (rule filter_name_absent)
  moreover have "filter (\<lambda>x. name x = name d \<and> \<not> space_contains child (name x)) parent = [d]"
    using filter_name_present [of parent d "\<lambda>x. \<not> space_contains child (name x)"]
      assms(1) h by (simp add: wf_space_def space_values_def)
  ultimately show "conflicts_named (name d) (find_conflicts parent child)
              = [\<lparr>is_solved = False, dimension = d, status = Missing\<rparr>]"
    by (simp add: conflicts_named_find_conflicts Conflict_def)
next
  assume h: "d \<in> set (space_values child) \<and> p \<in> set (space_values parent)
            \<and> name p = name d \<and> p \<noteq> d"
  then have inp: "space_contains parent (name d)" and inc: "space_contains child (name d)"
    by (auto simp: space_contains_def space_values_def intro: rev_image_eqI)
  have "filter (\<lambda>x. name x = name p \<and> x = d) parent = (if p = d then [p] else [])"
    using filter_name_present [of parent p "\<lambda>x. x = d"] assms(1) h
    by (simp add: wf_space_def space_values_def)
  then have "d \<notin> set parent" using h
    by (metis (mono_tags, lifting) filter_empty_conv)
  then have "filter (\<lambda>x. name x = name d \<and> (space_contains parent (name x) \<longrightarrow> x \<notin> set parent)) child = [d]"
    using filter_name_present [of child d "\<lambda>x. space_contains parent (name x) \<longrightarrow> x \<notin> set parent"]
      assms(2) h by (simp add: wf_space_def space_values_def)
  moreover have "filter (\<lambda>x. name x = name d \<and> \<not> space_contains child (name x)) parent = []"
    using inc by (auto simp: filter_empty_conv)
  ultimately show "conflicts_named (name d) (find_conflicts parent child)
              = [\<lparr>is_solved = False, dimension = d, status = Changed\<rparr>]"
    using inp by (simp add: conflicts_named_find_conflicts Conflict_def)
next
  assume h: "d \<in> set (space_values child) \<and> d \<in> set (space_values parent)"
  then have inp: "space_contains parent (name d)" and inc: "space_contains child (name d)"
    by (auto simp: space_contains_def space_values_def)
  have "filter (\<lambda>x. name x = name d \<and> (space_contains parent (name x) \<longrightarrow> x \<notin> set parent)) child = []"
    using filter_name_present [of child d "\<lambda>x. space_contains parent (name x) \<longrightarrow> x \<notin> set parent"]
      assms(2) h inp by (simp add: wf_space_def space_values_def)
  moreover have "filter (\<lambda>x. name x = name d \<and> \<not> space_contains child (name x)) parent = []"
    using inc by (auto simp: filter_empty_conv)
  ultimately show "conflicts_named (name d) (find_conflicts parent child) = []"
    by (simp add: conflicts_named_find_conflicts)
next
  have "distinct (map cname (find_conflicts parent child))"
    using assms by (rule distinct_names_find_conflicts)
  then show "distinct (map (\<lambda>c. (cname c, status c)) (find_conflicts parent child))"
    by (simp add: distinct_map inj_on_def)
qed

theorem find_conflicts_classification_witness:
  "wf_space example_parent \<and> wf_space example_child
   \<and> conflicts_named ''/new'' (find_conflicts example_parent example_child)
       = [\<lparr>is_solved = False, dimension = \<lparr>name = ''/new'', prior = ''normal(0,2)''\<rparr>, status = New\<rparr>]
   \<and> conflicts_named ''/missing'' (find_conflicts example_parent example_child)
       = [\<lparr>is_solved = False, dimension = \<lparr>name = ''/missing'', prior = ''uniform(-10,10)''\<rparr>, status = Missing\<rparr>]
   \<and> conflicts_named ''/changed'' (find_conflicts example_parent example_child)
       = [\<lparr>is_solved = False, dimension = \<lparr>name = ''/changed'', prior = ''normal(0,2)''\<rparr>, status = Changed\<rparr>]
   \<and> conflicts_named ''/same'' (find_conflicts example_parent example_child) = []"
proof -
  have wf: "wf_space example_parent" "wf_space example_child"
    by (simp_all add: wf_space_def example_parent_def example_child_def)
  show ?thesis
    using wf
      find_conflicts_classification [OF wf,
        of "\<lparr>name = ''/new'', prior = ''normal(0,2)''\<rparr>"]
      find_conflicts_classification [OF wf,
        of "\<lparr>name = ''/missing'', prior = ''uniform(-10,10)''\<rparr>"]
      find_conflicts_classification [OF wf,
        of "\<lparr>name = ''/changed'', prior = ''normal(0,2)''\<rparr>"
           "\<lparr>name = ''/changed'', prior = ''uniform(-10,10)''\<rparr>"]
      find_conflicts_classification [OF wf,
        of "\<lparr>name = ''/same'', prior = ''uniform(0,1)''\<rparr>"]
    by (simp add: space_contains_def space_values_def example_parent_def example_child_def)
qed

section \<open>Lists and dictionaries\<close>

lemma index_of_None: "index_of x xs = None \<longleftrightarrow> x \<notin> set xs"
  by (induction xs) auto

lemma index_of_Some:
  "index_of x xs = Some k \<Longrightarrow> k < length xs \<and> xs ! k = x \<and> (\<forall>j<k. xs ! j \<noteq> x)"
proof (induction xs arbitrary: k)
  case Nil
  then show ?case by simp
next
  case (Cons y ys)
  show ?case
  proof (cases "y = x")
    case True
    with Cons.prems show ?thesis by simp
  next
    case False
    with Cons.prems obtain k' where k': "index_of x ys = Some k'" "k = Suc k'"
      by auto
    from Cons.IH [OF k'(1)] False k'(2) show ?thesis
      by (auto simp: nth_Cons split: nat.splits)
  qed
qed

lemma dict_get_dict_set_other: "k' \<noteq> k \<Longrightarrow> dict_get (dict_set d k v) k' = dict_get d k'"
  by (induction d) auto

lemma dict_get_dict_set_if:
  "dict_get (dict_set d k v) k' = (if k' = k then v else dict_get d k')"
  by (simp add: dict_get_dict_set dict_get_dict_set_other)

lemma dict_keys_dict_set:
  "dict_keys (dict_set d k v) = (if k \<in> set (dict_keys d) then dict_keys d else dict_keys d @ [k])"
  by (induction d) (force simp: dict_keys_def)+

lemma dict_set_same: "k \<in> set (dict_keys d) \<Longrightarrow> dict_set d k (dict_get d k) = d"
  by (induction d) (force simp: dict_keys_def)+

lemma dict_get_absent: "k \<notin> set (dict_keys d) \<Longrightarrow> dict_get d k = []"
  by (induction d) (auto simp: dict_keys_def)

lemma dict_set_dict_set: "dict_set (dict_set d k v) k w = dict_set d k w"
  by (induction d) auto

section \<open>Looking a name up\<close>



lemma conflict_keys_set_solved [simp]: "conflict_keys (set_solved r v cs) = conflict_keys cs"
proof (rule nth_equalityI)
  show "length (conflict_keys (set_solved r v cs)) = length (conflict_keys cs)"
    by (simp add: conflict_keys_def set_solved_def)
next
  fix i
  assume "i < length (conflict_keys (set_solved r v cs))"
  then show "conflict_keys (set_solved r v cs) ! i = conflict_keys cs ! i"
    by (cases "i = r") (simp_all add: conflict_keys_def set_solved_def)
qed

lemma length_set_solved [simp]: "length (set_solved r v cs) = length cs"
  by (simp add: set_solved_def)

lemma filtered_keys:
  assumes "conflict_keys cs' = conflict_keys cs"
  shows "map (\<lambda>(r, c). (r, dimension c, status c)) (filter (\<lambda>(r, c). P (dimension c) (status c)) (enumerate n cs'))
       = map (\<lambda>(r, c). (r, dimension c, status c)) (filter (\<lambda>(r, c). P (dimension c) (status c)) (enumerate n cs))"
proof -
  from assms have "length cs' = length cs"
    by (metis conflict_keys_def length_map)
  then show ?thesis using assms
    by (induction cs' cs arbitrary: n rule: list_induct2) (auto simp: conflict_keys_def)
qed

lemma map_snd_filter_enumerate:
  "map snd (filter (\<lambda>(r, c). P c) (enumerate n cs)) = filter P cs"
  by (induction cs arbitrary: n) auto

lemma lookup_alt:
  "lookup s n st =
     map_option (\<lambda>k. map fst (filter (\<lambda>(r, c). status c \<in> set st) (enumerate 0 (conflicts s))) ! k)
       (index_of (''/'' @ n) (map (\<lambda>(r, c). name (dimension c))
          (filter (\<lambda>(r, c). status c \<in> set st) (enumerate 0 (conflicts s)))))"
  by (auto simp: lookup_def assert_has_status_def Let_def filter_conflicts_status_def
      filter_conflicts_def cname_def split: option.splits dest: index_of_Some)

lemma lookup_keys:
  assumes "conflict_keys (conflicts s') = conflict_keys (conflicts s)"
  shows "lookup s' n st = lookup s n st"
proof -
  let ?f = "\<lambda>s. filter (\<lambda>(r, c). status c \<in> set st) (enumerate 0 (conflicts s))"
  have k: "map (\<lambda>(r, c). (r, dimension c, status c)) (?f s')
      = map (\<lambda>(r, c). (r, dimension c, status c)) (?f s)"
    using filtered_keys [OF assms, of "\<lambda>d x. x \<in> set st" 0] by simp
  have "map fst (?f s') = map (fst) (map (\<lambda>(r, c). (r, dimension c, status c)) (?f s'))"
    by (simp add: comp_def case_prod_beta)
  also have "\<dots> = map fst (?f s)"
    unfolding k by (simp add: comp_def case_prod_beta)
  finally have a: "map fst (?f s') = map fst (?f s)" .
  have "map (\<lambda>(r, c). name (dimension c)) (?f s')
      = map (\<lambda>(r, d, x). name d) (map (\<lambda>(r, c). (r, dimension c, status c)) (?f s'))"
    by (simp add: comp_def case_prod_beta)
  also have "\<dots> = map (\<lambda>(r, c). name (dimension c)) (?f s)"
    unfolding k by (simp add: comp_def case_prod_beta)
  finally have b: "map (\<lambda>(r, c). name (dimension c)) (?f s')
      = map (\<lambda>(r, c). name (dimension c)) (?f s)" .
  show ?thesis
    unfolding lookup_alt a b ..
qed

lemma lookup_Some:
  assumes "lookup s n st = Some r"
  shows "r < length (conflicts s) \<and> cname (conflicts s ! r) = ''/'' @ n
         \<and> status (conflicts s ! r) \<in> set st"
proof -
  let ?f = "filter (\<lambda>(r, c). status c \<in> set st) (enumerate 0 (conflicts s))"
  from assms obtain k where k: "index_of (''/'' @ n) (map (\<lambda>(r, c). cname c) ?f) = Some k"
    and r: "r = fst (?f ! k)"
    by (auto simp: lookup_def assert_has_status_def Let_def filter_conflicts_status_def
        filter_conflicts_def split: option.splits)
  from index_of_Some [OF k] have kl: "k < length ?f"
    and nm: "(\<lambda>(r, c). cname c) (?f ! k) = ''/'' @ n"
    by auto
  from kl have "?f ! k \<in> set ?f" by (rule nth_mem)
  then have "?f ! k \<in> set (enumerate 0 (conflicts s))" and "status (snd (?f ! k)) \<in> set st"
    by (auto simp: case_prod_beta)
  then show ?thesis using r nm
    by (auto simp: in_set_enumerate_eq case_prod_beta)
qed

lemma lookup_None:
  "lookup s n st = None \<longleftrightarrow>
     \<not> (\<exists>c \<in> set (conflicts s). cname c = ''/'' @ n \<and> status c \<in> set st)"
proof -
  let ?f = "filter (\<lambda>(r, c). status c \<in> set st) (enumerate 0 (conflicts s))"
  have "lookup s n st = None \<longleftrightarrow> index_of (''/'' @ n) (map (\<lambda>(r, c). cname c) ?f) = None"
    by (simp add: lookup_def assert_has_status_def Let_def filter_conflicts_status_def
        filter_conflicts_def split: option.splits)
  also have "\<dots> \<longleftrightarrow> ''/'' @ n \<notin> set (map (\<lambda>(r, c). cname c) ?f)"
    by (rule index_of_None)
  also have "map (\<lambda>(r, c). cname c) ?f = map cname (map snd ?f)"
    by (simp add: comp_def case_prod_beta)
  also have "\<dots> = map cname (filter (\<lambda>c. status c \<in> set st) (conflicts s))"
    by (simp only: map_snd_filter_enumerate)
  finally show ?thesis by (auto simp: image_iff)
qed

lemma lookup_distinct:
  assumes "distinct (map cname (conflicts s))" and "r < length (conflicts s)"
    and "cname (conflicts s ! r) = ''/'' @ n" and "status (conflicts s ! r) \<in> set st"
  shows "lookup s n st = Some r"
proof (cases "lookup s n st")
  case None
  with assms show ?thesis unfolding lookup_None by (metis nth_mem)
next
  case (Some r')
  from lookup_Some [OF Some] assms have "r' = r"
    by (metis distinct_conv_nth length_map nth_map)
  with Some show ?thesis by simp
qed

lemma mark_as_lookup:
  "mark_as s n st v =
     (case lookup s n st of
        None \<Rightarrow> Inl (ValueError, s)
      | Some r \<Rightarrow> Inr (r, s\<lparr>conflicts := set_solved r v (conflicts s)\<rparr>))"
  by (auto simp: mark_as_def lookup_def assert_has_status_def Let_def split: option.splits)

section \<open>Expansion of the names string\<close>

lemma split_on_not_Nil: "split_on sep x \<noteq> []"
  by (induction x) (auto split: list.splits)

lemma split_on_no_sep: "sep \<notin> set x \<Longrightarrow> split_on sep x = [x]"
  by (induction x) auto

lemma split_on_tokens: "t \<in> set (split_on sep x) \<Longrightarrow> sep \<notin> set t"
proof (induction x arbitrary: t)
  case Nil
  then show ?case by simp
next
  case (Cons c cs)
  then show ?case
    by (cases "split_on sep cs") (auto split: if_splits simp: split_on_not_Nil)
qed

lemma hd_split_on: "hd (split_on sep x) = takeWhile (\<lambda>c. c \<noteq> sep) x"
  by (induction x) (auto split: list.splits simp: split_on_not_Nil)

lemma get_names_single: "CHR '' '' \<notin> set t \<Longrightarrow> get_names s t st = get_names_loop s st [t] []"
  by (simp add: get_names_def split_on_no_sep)

lemma get_names_loop_literal:
  "is_literal t \<Longrightarrow> get_names_loop s st (t # ts) names = get_names_loop s st ts [t]"
  by (simp add: is_literal_def)

lemma get_names_loop_extend:
  "\<not> is_literal t \<Longrightarrow>
     get_names_loop s st (t # ts) names
       = get_names_loop s st ts (names @ get_names_loop s st [t] [])"
  by (auto simp: is_literal_def extend_special_keywords_def extend_wildcard_def Let_def
      split: option.splits)

lemma get_names_loop_no_literal:
  "\<not> list_ex is_literal ts \<Longrightarrow>
     get_names_loop s st ts names
       = names @ concat (map (\<lambda>t. get_names_loop s st [t] []) ts)"
proof (induction ts arbitrary: names)
  case Nil
  then show ?case by simp
next
  case (Cons t ts)
  then have t: "\<not> is_literal t" and ts: "\<not> list_ex is_literal ts" by simp_all
  have "get_names_loop s st (t # ts) names
      = get_names_loop s st ts (names @ get_names_loop s st [t] [])"
    using t by (rule get_names_loop_extend)
  also have "\<dots> = (names @ get_names_loop s st [t] [])
      @ concat (map (\<lambda>t. get_names_loop s st [t] []) ts)"
    using ts by (rule Cons.IH)
  finally show ?case by (simp del: get_names_loop.simps)
qed

lemma get_names_loop_from_last_literal:
  "list_ex is_literal ts \<Longrightarrow>
     get_names_loop s st ts names
       = concat (map (\<lambda>t. get_names_loop s st [t] []) (from_last_literal ts))"
proof (induction ts arbitrary: names)
  case Nil
  then show ?case by simp
next
  case (Cons t ts)
  show ?case
  proof (cases "list_ex is_literal ts")
    case True
    have "get_names_loop s st (t # ts) names = get_names_loop s st ts
        (case map_of special_keywords t of
          Some keyword_status \<Rightarrow> extend_special_keywords s keyword_status names
        | None \<Rightarrow> if CHR ''*'' \<in> set t then extend_wildcard s t names st else [t])"
      by simp
    also have "\<dots> = concat (map (\<lambda>t. get_names_loop s st [t] []) (from_last_literal ts))"
      using True by (rule Cons.IH)
    finally show ?thesis using True by simp
  next
    case False
    with Cons.prems have lit: "is_literal t" by simp
    have "get_names_loop s st (t # ts) names = get_names_loop s st ts [t]"
      using lit by (rule get_names_loop_literal)
    also have "\<dots> = [t] @ concat (map (\<lambda>t. get_names_loop s st [t] []) ts)"
      using False by (rule get_names_loop_no_literal)
    also have "[t] = get_names_loop s st [t] []"
      using lit by (simp add: is_literal_def)
    finally show ?thesis using False by simp
  qed
qed

lemma from_last_literal_no_literal: "\<not> list_ex is_literal ts \<Longrightarrow> from_last_literal ts = ts"
  by (cases ts) auto

lemma from_last_literal_subset: "set (from_last_literal ts) \<subseteq> set ts"
  by (induction ts) auto

lemma from_last_literal_last:
  "ts \<noteq> [] \<Longrightarrow> is_literal (last ts) \<Longrightarrow> from_last_literal ts = [last ts]"
  by (induction ts) (auto simp: list_ex_iff)

text \<open>
  C7, amended: a literal token discards the names gathered before it, a keyword or
  wildcard token appends its expansion to them. So the list for the whole string is
  the concatenation of the lists that the tokens from the last literal token on
  would each produce alone (of all tokens when none is literal); it is the list of
  the last token alone when the last token is literal.
\<close>

theorem get_names_from_last_literal:
  "get_names s n st
     = concat (map (\<lambda>t. get_names s t st) (from_last_literal (split_on CHR '' '' n)))
   \<and> (is_literal (last (split_on CHR '' '' n)) \<longrightarrow>
        get_names s n st = get_names s (last (split_on CHR '' '' n)) st)"
proof
  let ?ts = "split_on CHR '' '' n"
  have single: "map (\<lambda>t. get_names s t st) (from_last_literal ?ts)
      = map (\<lambda>t. get_names_loop s st [t] []) (from_last_literal ?ts)"
  proof (rule map_cong [OF refl])
    fix t
    assume "t \<in> set (from_last_literal ?ts)"
    then have "t \<in> set ?ts" using from_last_literal_subset by blast
    then have "CHR '' '' \<notin> set t" by (rule split_on_tokens)
    then show "get_names s t st = get_names_loop s st [t] []" by (rule get_names_single)
  qed
  show eq: "get_names s n st = concat (map (\<lambda>t. get_names s t st) (from_last_literal ?ts))"
  proof (cases "list_ex is_literal ?ts")
    case True
    then show ?thesis
      unfolding single by (simp add: get_names_def get_names_loop_from_last_literal)
  next
    case False
    then show ?thesis
      unfolding single
      by (simp add: get_names_def get_names_loop_no_literal from_last_literal_no_literal)
  qed
  show "is_literal (last ?ts) \<longrightarrow> get_names s n st = get_names s (last ?ts) st"
  proof
    assume "is_literal (last ?ts)"
    then have "from_last_literal ?ts = [last ?ts]"
      using split_on_not_Nil by (rule from_last_literal_last [rotated])
    with eq show "get_names s n st = get_names s (last ?ts) st" by simp
  qed
qed

theorem get_names_from_last_literal_witness:
  "is_literal (last (split_on CHR '' '' ''~new changed''))
   \<and> get_names example_builder ''~new changed'' [New, Changed] = [''changed'']
   \<and> get_names example_builder ''changed ~new'' [New, Changed] = [''changed'', ''new'']"
  using get_names_from_last_literal [of example_builder "''~new changed''" "[New, Changed]"]
    get_names_from_last_literal [of example_builder "''changed ~new''" "[New, Changed]"]
  by (simp add: is_literal_def special_keywords_def get_names_def example_builder_def
      init_builder_def find_conflicts_def example_parent_def example_child_def
      space_contains_def space_values_def extend_special_keywords_def
      filter_conflicts_status_def filter_conflicts_def cname_def Conflict_def)

text \<open>
  The claim as stated fails on two keyword tokens: the first token's names stay in the
  list.
\<close>

theorem get_names_last_token_counterexample:
  "get_names example_builder ''~new ~changed'' [New, Changed]
     \<noteq> get_names example_builder (last (split_on CHR '' '' ''~new ~changed'')) [New, Changed]
   \<and> get_names example_builder ''~new ~changed'' [New, Changed] = [''new'', ''changed'']
   \<and> last (split_on CHR '' '' ''~new ~changed'') = ''~changed''
   \<and> get_names example_builder ''~changed'' [New, Changed] = [''changed'']"
  by (simp add: special_keywords_def get_names_def example_builder_def
      init_builder_def find_conflicts_def example_parent_def example_child_def
      space_contains_def space_values_def extend_special_keywords_def
      filter_conflicts_status_def filter_conflicts_def cname_def Conflict_def)

section \<open>Recording an operation\<close>

lemma conflicts_put_operation [simp]: "conflicts (put_operation s operation p) = conflicts s"
  by (simp add: put_operation_def Let_def)

lemma dict_get_put_operation:
  "dict_get (operations (put_operation s operation p)) k =
     (if k = operation \<and> p \<notin> set (dict_get (operations s) operation)
      then dict_get (operations s) operation @ [p]
      else dict_get (operations s) k)"
  by (auto simp: put_operation_def Let_def dict_get_dict_set_if dict_get_absent)

lemma dict_keys_put_operation:
  "dict_keys (operations (put_operation s operation p)) =
     (if operation \<in> set (dict_keys (operations s)) then dict_keys (operations s)
      else dict_keys (operations s) @ [operation])"
  by (auto simp: put_operation_def Let_def dict_keys_dict_set)

lemma put_operation_present:
  "p \<in> set (dict_get (operations s) operation) \<Longrightarrow> put_operation s operation p = s"
proof -
  assume p: "p \<in> set (dict_get (operations s) operation)"
  have "operation \<in> set (dict_keys (operations s))"
  proof (rule ccontr)
    assume "operation \<notin> set (dict_keys (operations s))"
    then have "dict_get (operations s) operation = []" by (rule dict_get_absent)
    with p show False by simp
  qed
  with p show ?thesis by (simp add: put_operation_def)
qed

lemma set_solved_twice [simp]: "set_solved r v (set_solved r v cs) = set_solved r v cs"
  by (cases "r < length cs") (simp_all add: set_solved_def list_update_beyond)

lemma nth_set_solved:
  "set_solved r v cs ! i = (if i = r \<and> r < length cs then (cs ! r)\<lparr>is_solved := v\<rparr> else cs ! i)"
  by (cases "r < length cs") (auto simp: set_solved_def list_update_beyond)

section \<open>The loop of add and remove\<close>

lemma mark_as_solved_lookup:
  "mark_as_solved s n st =
     (case lookup s n st of
        None \<Rightarrow> Inl (ValueError, s)
      | Some r \<Rightarrow> Inr (r, s\<lparr>conflicts := set_solved r True (conflicts s)\<rparr>))"
  by (simp add: mark_as_solved_def mark_as_lookup)

lemma do_basic_loop_Cons:
  "do_basic_loop (n # ns) st operation s =
     (case lookup s n st of
        None \<Rightarrow> Inl (ValueError, s)
      | Some r \<Rightarrow>
          do_basic_loop ns st operation
            (put_operation (s\<lparr>conflicts := set_solved r True (conflicts s)\<rparr>) operation (Single r)))"
  by (simp add: mark_as_solved_lookup split: option.splits)

declare do_basic_loop.simps(2) [simp del]

lemma do_basic_loop_failure:
  "do_basic_loop ns st operation s = Inl (e, s') \<Longrightarrow>
     \<exists>pre n post. ns = pre @ n # post \<and> do_basic_loop pre st operation s = Inr s'
       \<and> lookup s' n st = None \<and> e = ValueError"
proof (induction ns arbitrary: s)
  case Nil
  then show ?case by simp
next
  case (Cons n ns)
  show ?case
  proof (cases "lookup s n st")
    case None
    with Cons.prems have "e = ValueError" "s' = s"
      by (simp_all add: do_basic_loop_Cons)
    with None have "n # ns = [] @ n # ns \<and> do_basic_loop [] st operation s = Inr s'
       \<and> lookup s' n st = None \<and> e = ValueError"
      by simp
    then show ?thesis by blast
  next
    case (Some r)
    let ?s1 = "put_operation (s\<lparr>conflicts := set_solved r True (conflicts s)\<rparr>) operation (Single r)"
    from Cons.prems Some have "do_basic_loop ns st operation ?s1 = Inl (e, s')"
      by (simp add: do_basic_loop_Cons)
    from Cons.IH [OF this] obtain pre m post where
      "ns = pre @ m # post" "do_basic_loop pre st operation ?s1 = Inr s'"
      "lookup s' m st = None" "e = ValueError"
      by blast
    with Some have "n # ns = (n # pre) @ m # post
       \<and> do_basic_loop (n # pre) st operation s = Inr s'
       \<and> lookup s' m st = None \<and> e = ValueError"
      by (simp add: do_basic_loop_Cons)
    then show ?thesis by blast
  qed
qed

lemma do_basic_loop_keys:
  "conflict_keys (conflicts (state_after (do_basic_loop ns st operation s)))
     = conflict_keys (conflicts s)"
proof (induction ns arbitrary: s)
  case Nil
  then show ?case by simp
next
  case (Cons n ns)
  show ?case
  proof (cases "lookup s n st")
    case None
    then show ?thesis by (simp add: do_basic_loop_Cons)
  next
    case (Some r)
    then show ?thesis
      by (simp add: do_basic_loop_Cons Cons.IH)
  qed
qed

section \<open>A failed call of add\<close>

lemma do_basic_loop_keeps:
  "do_basic_loop ns st operation s = Inr s' \<Longrightarrow>
     (r < length (conflicts s) \<and> is_solved (conflicts s ! r) \<longrightarrow> is_solved (conflicts s' ! r))
     \<and> (p \<in> set (dict_get (operations s) k) \<longrightarrow> p \<in> set (dict_get (operations s') k))"
proof (induction ns arbitrary: s)
  case Nil
  then show ?case by simp
next
  case (Cons n ns)
  show ?case
  proof (cases "lookup s n st")
    case None
    with Cons.prems show ?thesis by (simp add: do_basic_loop_Cons)
  next
    case (Some r')
    let ?s1 = "put_operation (s\<lparr>conflicts := set_solved r' True (conflicts s)\<rparr>) operation (Single r')"
    from Cons.prems Some have "do_basic_loop ns st operation ?s1 = Inr s'"
      by (simp add: do_basic_loop_Cons)
    from Cons.IH [OF this] show ?thesis
      by (auto simp: nth_set_solved dict_get_put_operation split: if_splits)
  qed
qed

lemma do_basic_loop_success:
  "do_basic_loop ns st operation s = Inr s' \<Longrightarrow>
     \<forall>m \<in> set ns. \<exists>r. lookup s m st = Some r \<and> is_solved (conflicts s' ! r)
                         \<and> Single r \<in> set (dict_get (operations s') operation)"
proof (induction ns arbitrary: s)
  case Nil
  then show ?case by simp
next
  case (Cons n ns)
  show ?case
  proof (cases "lookup s n st")
    case None
    with Cons.prems show ?thesis by (simp add: do_basic_loop_Cons)
  next
    case (Some r0)
    let ?s1 = "put_operation (s\<lparr>conflicts := set_solved r0 True (conflicts s)\<rparr>) operation (Single r0)"
    from Cons.prems Some have rest: "do_basic_loop ns st operation ?s1 = Inr s'"
      by (simp add: do_basic_loop_Cons)
    from lookup_Some [OF Some] have r0: "r0 < length (conflicts s)" by simp
    then have "r0 < length (conflicts ?s1) \<and> is_solved (conflicts ?s1 ! r0)"
      by (simp add: nth_set_solved)
    moreover have "Single r0 \<in> set (dict_get (operations ?s1) operation)"
      by (simp add: dict_get_put_operation)
    ultimately have head: "is_solved (conflicts s' ! r0)
        \<and> Single r0 \<in> set (dict_get (operations s') operation)"
      using do_basic_loop_keeps [OF rest, of r0 "Single r0" operation] by blast
    have "conflict_keys (conflicts ?s1) = conflict_keys (conflicts s)" by simp
    then have same: "\<And>m. lookup ?s1 m st = lookup s m st" by (rule lookup_keys)
    from Cons.IH [OF rest] same
    have tail: "\<forall>m \<in> set ns. \<exists>r. lookup s m st = Some r \<and> is_solved (conflicts s' ! r)
                         \<and> Single r \<in> set (dict_get (operations s') operation)"
      by simp
    from Some head tail show ?thesis by simp
  qed
qed

text \<open>
  C3, amended: there is no rollback. When \<open>add_dimension\<close> fails, the expanded names
  before the first one that matches no \<open>new\<close> or \<open>changed\<close> conflict have been
  processed: each of them resolves to a conflict that is now solved and recorded in
  the \<open>add\<close> list, the builder is left in the state that processing exactly those
  names produces, and the exception is the failed lookup of that name. If the first
  expanded name is the one that fails, the state is the one before the call.
\<close>

theorem add_dimension_failure_state:
  assumes "add_dimension s a = Inl (e, s')"
  shows "\<exists>pre n post.
           get_names s a [New, Changed] = pre @ n # post
         \<and> do_basic_loop pre [New, Changed] Add s = Inr s'
         \<and> \<not> (\<exists>c \<in> set (conflicts s). cname c = ''/'' @ n \<and> status c \<in> set [New, Changed])
         \<and> e = ValueError
         \<and> (\<forall>m \<in> set pre.
               \<exists>r < length (conflicts s).
                  cname (conflicts s ! r) = ''/'' @ m
                  \<and> status (conflicts s ! r) \<in> set [New, Changed]
                  \<and> is_solved (conflicts s' ! r)
                  \<and> Single r \<in> set (dict_get (operations s') Add))
         \<and> (pre = [] \<longrightarrow> s' = s)"
proof -
  from assms have "do_basic_loop (get_names s a [New, Changed]) [New, Changed] Add s = Inl (e, s')"
    by (simp add: add_dimension_def do_basic_def)
  from do_basic_loop_failure [OF this] obtain pre n post where
    split: "get_names s a [New, Changed] = pre @ n # post"
    and pre: "do_basic_loop pre [New, Changed] Add s = Inr s'"
    and none: "lookup s' n [New, Changed] = None" and e: "e = ValueError"
    by blast
  have "conflict_keys (conflicts s') = conflict_keys (conflicts s)"
    using do_basic_loop_keys [of pre "[New, Changed]" Add s] pre by simp
  then have "lookup s n [New, Changed] = None"
    using none lookup_keys by metis
  then have absent: "\<not> (\<exists>c \<in> set (conflicts s). cname c = ''/'' @ n \<and> status c \<in> set [New, Changed])"
    unfolding lookup_None .
  have done_before: "\<forall>m \<in> set pre.
               \<exists>r < length (conflicts s).
                  cname (conflicts s ! r) = ''/'' @ m
                  \<and> status (conflicts s ! r) \<in> set [New, Changed]
                  \<and> is_solved (conflicts s' ! r)
                  \<and> Single r \<in> set (dict_get (operations s') Add)"
  proof
    fix m
    assume "m \<in> set pre"
    with do_basic_loop_success [OF pre] obtain r where
      r: "lookup s m [New, Changed] = Some r" "is_solved (conflicts s' ! r)"
      "Single r \<in> set (dict_get (operations s') Add)"
      by blast
    with lookup_Some [OF r(1)]
    show "\<exists>r < length (conflicts s).
                  cname (conflicts s ! r) = ''/'' @ m
                  \<and> status (conflicts s ! r) \<in> set [New, Changed]
                  \<and> is_solved (conflicts s' ! r)
                  \<and> Single r \<in> set (dict_get (operations s') Add)"
      by blast
  qed
  have "pre = [] \<longrightarrow> s' = s"
    using pre by auto
  with split pre absent e done_before show ?thesis by blast
qed

theorem add_dimension_failure_state_witness:
  "add_dimension example_builder ''new ~missing''
     = Inl (ValueError, state_after (add_dimension example_builder ''new''))
   \<and> get_names example_builder ''new ~missing'' [New, Changed] = [''new''] @ ''missing'' # []
   \<and> do_basic_loop [''new''] [New, Changed] Add example_builder
       = Inr (state_after (add_dimension example_builder ''new''))"
proof -
  have f: "add_dimension example_builder ''new ~missing''
     = Inl (ValueError, state_after (add_dimension example_builder ''new''))"
    by (simp add: add_dimension_def do_basic_def do_basic_loop.simps mark_as_solved_def
      mark_as_def assert_has_status_def put_operation_def set_solved_def dict_keys_def Let_def
      special_keywords_def get_names_def example_builder_def
      init_builder_def find_conflicts_def example_parent_def example_child_def
      space_contains_def space_values_def extend_special_keywords_def
      filter_conflicts_status_def filter_conflicts_def cname_def Conflict_def)
  show ?thesis
    using f add_dimension_failure_state [OF f]
    by (simp add: add_dimension_def do_basic_def do_basic_loop.simps mark_as_solved_def
      mark_as_def assert_has_status_def put_operation_def set_solved_def dict_keys_def Let_def
      special_keywords_def get_names_def example_builder_def
      init_builder_def find_conflicts_def example_parent_def example_child_def
      space_contains_def space_values_def extend_special_keywords_def
      filter_conflicts_status_def filter_conflicts_def cname_def Conflict_def)
qed

text \<open>
  The claim as stated fails: the call below raises after \<open>new\<close> has been marked
  solved and recorded.
\<close>

theorem add_dimension_not_exception_safe_counterexample:
  "add_dimension example_builder ''new ~missing''
     = Inl (ValueError,
            example_builder
              \<lparr>conflicts := set_solved 0 True (conflicts example_builder),
               operations := [(Add, [Single 0])]\<rparr>)
   \<and> is_solved (conflicts example_builder ! 0) = False
   \<and> operations example_builder = []"
  by (simp add: add_dimension_def do_basic_def do_basic_loop.simps mark_as_solved_def
      mark_as_def assert_has_status_def put_operation_def set_solved_def dict_keys_def Let_def
      special_keywords_def get_names_def example_builder_def
      init_builder_def find_conflicts_def example_parent_def example_child_def
      space_contains_def space_values_def extend_special_keywords_def
      filter_conflicts_status_def filter_conflicts_def cname_def Conflict_def)

section \<open>What add can touch\<close>

lemma map_filter_enumerate:
  "map (\<lambda>(r, c). f c) (filter (\<lambda>(r, c). P c) (enumerate n cs)) = map f (filter P cs)"
  by (induction cs arbitrary: n) auto

lemma wildcard_not_keyword: "CHR ''*'' \<in> set arg \<Longrightarrow> map_of special_keywords arg = None"
  by (auto simp: special_keywords_def)

lemma keyword_no_space: "map_of special_keywords arg = Some k \<Longrightarrow> CHR '' '' \<notin> set arg"
  by (auto simp: special_keywords_def split: if_splits)

lemma get_names_wildcard:
  assumes "CHR ''*'' \<in> set arg" and "CHR '' '' \<notin> set arg"
  shows "get_names s arg st =
           map (\<lambda>c. drop 1 (cname c))
             (filter (\<lambda>c. startswith (cname c) (''/'' @ takeWhile (\<lambda>x. x \<noteq> CHR ''*'') arg)
                           \<and> status c \<in> set st)
                (conflicts s))"
  using assms
  by (simp add: get_names_single wildcard_not_keyword extend_wildcard_def Let_def
      filter_conflicts_def map_filter_enumerate hd_split_on)

lemma get_names_keyword:
  assumes "map_of special_keywords arg = Some k"
  shows "get_names s arg st =
           map (\<lambda>c. drop 1 (cname c)) (filter (\<lambda>c. status c = k) (conflicts s))"
  using assms keyword_no_space [OF assms]
  by (simp add: get_names_single extend_special_keywords_def filter_conflicts_status_def
      filter_conflicts_def map_filter_enumerate)

lemma do_basic_loop_untouched:
  assumes "status (conflicts s ! r) \<notin> set st"
  shows "conflicts (state_after (do_basic_loop ns st operation s)) ! r = conflicts s ! r"
  using assms
proof (induction ns arbitrary: s)
  case Nil
  then show ?case by simp
next
  case (Cons n ns)
  show ?case
  proof (cases "lookup s n st")
    case None
    then show ?thesis by (simp add: do_basic_loop_Cons)
  next
    case (Some r')
    let ?s1 = "put_operation (s\<lparr>conflicts := set_solved r' True (conflicts s)\<rparr>) operation (Single r')"
    from lookup_Some [OF Some] Cons.prems have ne: "r \<noteq> r'" by auto
    then have same: "conflicts ?s1 ! r = conflicts s ! r"
      by (simp add: nth_set_solved)
    with Cons.prems have "status (conflicts ?s1 ! r) \<notin> set st" by simp
    from Cons.IH [OF this] same Some show ?thesis
      by (simp add: do_basic_loop_Cons)
  qed
qed

lemma do_basic_loop_recorded:
  assumes "p \<in> set (dict_get (operations (state_after (do_basic_loop ns st operation s))) k)"
  shows "p \<in> set (dict_get (operations s) k)
       \<or> (k = operation \<and> (\<exists>r. p = Single r \<and> r < length (conflicts s)
                                \<and> status (conflicts s ! r) \<in> set st))"
  using assms
proof (induction ns arbitrary: s)
  case Nil
  then show ?case by simp
next
  case (Cons n ns)
  show ?case
  proof (cases "lookup s n st")
    case None
    with Cons.prems show ?thesis by (simp add: do_basic_loop_Cons)
  next
    case (Some r')
    let ?s1 = "put_operation (s\<lparr>conflicts := set_solved r' True (conflicts s)\<rparr>) operation (Single r')"
    from Cons.prems Some
    have "p \<in> set (dict_get (operations (state_after (do_basic_loop ns st operation ?s1))) k)"
      by (simp add: do_basic_loop_Cons)
    from Cons.IH [OF this]
    consider "p \<in> set (dict_get (operations ?s1) k)"
      | "k = operation \<and> (\<exists>r. p = Single r \<and> r < length (conflicts ?s1)
                                \<and> status (conflicts ?s1 ! r) \<in> set st)"
      by blast
    then show ?thesis
    proof cases
      case 1
      then show ?thesis
        using lookup_Some [OF Some]
        by (auto simp: dict_get_put_operation split: if_splits)
    next
      case 2
      then obtain r where r: "k = operation" "p = Single r" "r < length (conflicts s)"
        "status (conflicts ?s1 ! r) \<in> set st"
        by auto
      have "status (conflicts ?s1 ! r) = status (conflicts s ! r)"
        by (simp add: nth_set_solved)
      with r show ?thesis by auto
    qed
  qed
qed

section \<open>Expansion and idempotence of add\<close>

lemmas example_defs =
  special_keywords_def get_names_def example_builder_def scenario_builder_def
  init_builder_def find_conflicts_def example_parent_def example_child_def
  space_contains_def space_values_def extend_special_keywords_def extend_wildcard_def
  filter_conflicts_status_def filter_conflicts_def cname_def Conflict_def startswith_def
  add_dimension_def remove_dimension_def do_basic_def do_basic_loop.simps mark_as_solved_def
  mark_as_def assert_has_status_def put_operation_def set_solved_def dict_keys_def Let_def

text \<open>
  C6, amended: in \<open>add_dimension\<close> a wildcard token expands to the names of the
  conflicts that start with its prefix and whose status is \<open>new\<close> or \<open>changed\<close>. A
  status keyword expands to the names of all conflicts of the keyword's own status,
  whatever the allowed statuses are. Whatever the argument, the call leaves every
  conflict of another status as it was and records in the \<open>add\<close> list only conflicts
  whose status is \<open>new\<close> or \<open>changed\<close>.
\<close>

theorem add_dimension_expansion:
  "(CHR ''*'' \<in> set arg \<and> CHR '' '' \<notin> set arg \<longrightarrow>
      get_names s arg [New, Changed] =
        map (\<lambda>c. drop 1 (cname c))
          (filter (\<lambda>c. startswith (cname c) (''/'' @ takeWhile (\<lambda>x. x \<noteq> CHR ''*'') arg)
                        \<and> status c \<in> set [New, Changed])
             (conflicts s)))
   \<and> (map_of special_keywords arg = Some k \<longrightarrow>
        get_names s arg [New, Changed] =
          map (\<lambda>c. drop 1 (cname c)) (filter (\<lambda>c. status c = k) (conflicts s)))
   \<and> (status (conflicts s ! r) \<notin> set [New, Changed] \<longrightarrow>
        conflicts (state_after (add_dimension s a)) ! r = conflicts s ! r)
   \<and> (Single r \<in> set (dict_get (operations (state_after (add_dimension s a))) Add) \<longrightarrow>
        Single r \<in> set (dict_get (operations s) Add)
        \<or> status (conflicts s ! r) \<in> set [New, Changed])"
proof (intro conjI impI)
  assume "CHR ''*'' \<in> set arg \<and> CHR '' '' \<notin> set arg"
  then show "get_names s arg [New, Changed] =
        map (\<lambda>c. drop 1 (cname c))
          (filter (\<lambda>c. startswith (cname c) (''/'' @ takeWhile (\<lambda>x. x \<noteq> CHR ''*'') arg)
                        \<and> status c \<in> set [New, Changed])
             (conflicts s))"
    using get_names_wildcard by blast
next
  assume "map_of special_keywords arg = Some k"
  then show "get_names s arg [New, Changed] =
          map (\<lambda>c. drop 1 (cname c)) (filter (\<lambda>c. status c = k) (conflicts s))"
    by (rule get_names_keyword)
next
  assume "status (conflicts s ! r) \<notin> set [New, Changed]"
  then show "conflicts (state_after (add_dimension s a)) ! r = conflicts s ! r"
    unfolding add_dimension_def do_basic_def by (rule do_basic_loop_untouched)
next
  assume "Single r \<in> set (dict_get (operations (state_after (add_dimension s a))) Add)"
  then have "Single r \<in> set (dict_get (operations s) Add)
       \<or> (Add = Add \<and> (\<exists>r'. Single r = Single r' \<and> r' < length (conflicts s)
                                \<and> status (conflicts s ! r') \<in> set [New, Changed]))"
    unfolding add_dimension_def do_basic_def by (rule do_basic_loop_recorded)
  then show "Single r \<in> set (dict_get (operations s) Add)
        \<or> status (conflicts s ! r) \<in> set [New, Changed]"
    by auto
qed

theorem add_dimension_expansion_witness:
  "CHR ''*'' \<in> set ''db.*'' \<and> CHR '' '' \<notin> set ''db.*''
   \<and> get_names scenario_builder ''db.*'' [New, Changed] = [''db.host'', ''db.port'']
   \<and> map_of special_keywords ''~new'' = Some New
   \<and> get_names scenario_builder ''~new'' [New, Changed] = [''db.host'', ''db.port'']
   \<and> status (conflicts scenario_builder ! 2) \<notin> set [New, Changed]
   \<and> conflicts (state_after (add_dimension scenario_builder ''db.*'')) ! 2
       = Conflict Missing \<lparr>name = ''/cache.ttl'', prior = ''uniform(0,1)''\<rparr>
   \<and> map is_solved (conflicts (state_after (add_dimension scenario_builder ''db.*'')))
       = [True, True, False]
   \<and> operations (state_after (add_dimension scenario_builder ''db.*''))
       = [(Add, [Single 0, Single 1])]
   \<and> status (conflicts scenario_builder ! 1) \<in> set [New, Changed]"
  using add_dimension_expansion [of "''db.*''" scenario_builder New 2 "''db.*''"]
    add_dimension_expansion [of "''~new''" scenario_builder New 1 "''db.*''"]
  by (simp add: example_defs)

text \<open>
  The claim as stated fails for a status keyword: under the statuses allowed for add,
  \<open>~missing\<close> contributes the name of the \<open>missing\<close> conflict (and the call then
  raises at the lookup of that name).
\<close>

theorem add_dimension_keyword_counterexample:
  "get_names scenario_builder ''~missing'' [New, Changed] = [''cache.ttl'']
   \<and> map status (conflicts_named ''/cache.ttl'' (conflicts scenario_builder)) = [Missing]
   \<and> add_dimension scenario_builder ''~missing'' = Inl (ValueError, scenario_builder)"
  by (simp add: example_defs conflicts_named_def)

text \<open>
  C5: for the name \<open>x\<close> of a \<open>new\<close> or \<open>changed\<close> conflict that the \<open>add\<close> list holds
  at most once, two calls of \<open>add_dimension\<close> with \<open>x\<close> succeed, the second changes
  nothing, and the \<open>add\<close> list then holds exactly one entry for the conflict;
  putting a payload that its operation list already holds changes nothing.
\<close>

theorem add_dimension_idempotent:
  assumes "is_literal x" and "CHR '' '' \<notin> set x"
    and "distinct (map cname (conflicts s))"
    and "r < length (conflicts s)" and "cname (conflicts s ! r) = ''/'' @ x"
    and "status (conflicts s ! r) \<in> set [New, Changed]"
    and "count_list (dict_get (operations s) Add) (Single r) \<le> 1"
  shows "\<exists>s1. add_dimension s x = Inr s1 \<and> add_dimension s1 x = Inr s1
            \<and> count_list (dict_get (operations s1) Add) (Single r) = 1
            \<and> is_solved (conflicts s1 ! r)
            \<and> (p \<in> set (dict_get (operations s) operation) \<longrightarrow> put_operation s operation p = s)"
proof -
  let ?st = "[New, Changed]"
  let ?s1 = "put_operation (s\<lparr>conflicts := set_solved r True (conflicts s)\<rparr>) Add (Single r)"
  have names: "\<And>s. get_names s x ?st = [x]"
    using assms(1,2) by (simp add: get_names_single is_literal_def)
  have look: "lookup s x ?st = Some r"
    using assms(3-6) by (rule lookup_distinct)
  have first: "add_dimension s x = Inr ?s1"
    by (simp add: add_dimension_def do_basic_def names do_basic_loop_Cons look)
  have "conflict_keys (conflicts ?s1) = conflict_keys (conflicts s)"
    by simp
  then have look1: "lookup ?s1 x ?st = Some r"
    using look lookup_keys by metis
  have mem: "Single r \<in> set (dict_get (operations ?s1) Add)"
    by (simp add: dict_get_put_operation)
  have "?s1\<lparr>conflicts := set_solved r True (conflicts ?s1)\<rparr> = ?s1"
    by simp
  then have second: "add_dimension ?s1 x = Inr ?s1"
    using mem
    by (simp add: add_dimension_def do_basic_def names do_basic_loop_Cons look1
        put_operation_present del: conflicts_put_operation)
  have count: "count_list (dict_get (operations ?s1) Add) (Single r) = 1"
  proof (cases "Single r \<in> set (dict_get (operations s) Add)")
    case True
    then have "count_list (dict_get (operations s) Add) (Single r) \<noteq> 0"
      unfolding count_list_0_iff by simp
    with assms(7) True show ?thesis by (simp add: dict_get_put_operation)
  next
    case False
    then show ?thesis by (simp add: dict_get_put_operation count_list_0_iff)
  qed
  have solved: "is_solved (conflicts ?s1 ! r)"
    using assms(4) by (simp add: nth_set_solved)
  have "p \<in> set (dict_get (operations s) operation) \<longrightarrow> put_operation s operation p = s"
    using put_operation_present by blast
  with first second count solved show ?thesis by blast
qed

theorem add_dimension_idempotent_witness:
  "is_literal ''new'' \<and> CHR '' '' \<notin> set ''new''
   \<and> distinct (map cname (conflicts example_builder))
   \<and> 0 < length (conflicts example_builder)
   \<and> cname (conflicts example_builder ! 0) = ''/'' @ ''new''
   \<and> status (conflicts example_builder ! 0) \<in> set [New, Changed]
   \<and> count_list (dict_get (operations example_builder) Add) (Single 0) \<le> 1
   \<and> (\<exists>s1. add_dimension example_builder ''new'' = Inr s1 \<and> add_dimension s1 ''new'' = Inr s1
            \<and> count_list (dict_get (operations s1) Add) (Single 0) = 1)"
proof -
  have h: "is_literal ''new''" "CHR '' '' \<notin> set ''new''"
    "distinct (map cname (conflicts example_builder))"
    "0 < length (conflicts example_builder)"
    "cname (conflicts example_builder ! 0) = ''/'' @ ''new''"
    "status (conflicts example_builder ! 0) \<in> set [New, Changed]"
    "count_list (dict_get (operations example_builder) Add) (Single 0) \<le> 1"
    by (simp_all add: is_literal_def example_defs)
  from add_dimension_idempotent [OF h] h show ?thesis by blast
qed

section \<open>The directive parser on a repeated directive\<close>

lemma arg_loop_step:
  "i < length (args p) \<Longrightarrow>
     keyword_loop (dict_keys (commandline_keywords p)) (args p ! i) p = Inr p1 \<Longrightarrow>
     arg_loop i p = arg_loop (Suc i) p1"
  by (subst arg_loop.simps) simp

lemma arg_loop_stop: "\<not> i < length (args p) \<Longrightarrow> arg_loop i p = Inr p"
  by (subst arg_loop.simps) simp

lemma arg_loop_raise:
  "i < length (args p) \<Longrightarrow>
     keyword_loop (dict_keys (commandline_keywords p)) (args p ! i) p = Inl e \<Longrightarrow>
     arg_loop i p = Inl e"
  by (subst arg_loop.simps) simp

text \<open>
  On arguments that are all different and carry at most one marker each, the parser
  does what is described: the append marker is rewritten, the tokens with a drop or
  a rename marker are deleted, the others stay, and every directive is queued.
\<close>

lemma interpret_commandline_example:
  "interpret_commandline
     [''--x~+normal(0,1)'', ''--y~-'', ''--z~uniform(0,1)'', ''--a~>b'']
     = Inr \<lparr>args = [''--x~normal(0,1)'', ''--z~uniform(0,1)''], to_delete = [1, 3],
            commandline_keywords =
              [(''~+'', [''--x~+normal(0,1)'']), (''~-'', [''--y~-'']),
               (''~>'', [''--a~>b''])]\<rparr>"
  by code_simp

text \<open>
  C8 at an argument list that repeats a drop directive around an ordinary argument:
  \<open>args.index(arg)\<close> finds the first of the two equal tokens both times, position 0
  is deleted twice, and the result has lost the argument without a marker and kept a
  token with the drop marker.
\<close>

theorem interpret_commandline_repeated_drop:
  "interpret_commandline [''--a~-'', ''--b~uniform(0,1)'', ''--a~-'']
     = Inr \<lparr>args = [''--a~-''], to_delete = [0, 0],
            commandline_keywords =
              [(''~+'', []), (''~-'', [''--a~-'', ''--a~-'']), (''~>'', [])]\<rparr>"
  by code_simp

section \<open>Creating the adaptors\<close>

text \<open>
  C9 on the builder of the example after \<open>add_dimension\<close> of \<open>new\<close> and
  \<open>remove_dimension\<close> of \<open>missing\<close>: two payloads are recorded and the local list
  gets one entry for each, but what \<open>create_adaptors\<close> returns is \<open>None\<close>, not the
  list.
\<close>

theorem create_adaptors_returns_none:
  "recorded_payloads (run [AddDimension ''new'', RemoveDimension ''missing''] example_builder)
     = [Single 0, Single 2]
   \<and> create_adaptors_list (run [AddDimension ''new'', RemoveDimension ''missing''] example_builder)
     = [PyNone, PyNone]
   \<and> create_adaptors (run [AddDimension ''new'', RemoveDimension ''missing''] example_builder)
     = PyNone"
  by (simp add: example_defs recorded_payloads_def create_adaptors_list_def create_adaptors_def
      add_adaptor_def remove_adaptor_def)

section \<open>The conflict set keeps its members\<close>


lemma rename_scan_preserves:
  "conflict_keys (conflicts (state_after (rename_scan i arg s))) = conflict_keys (conflicts s)
   \<and> (rename_typed s \<longrightarrow>
        rename_typed (state_after (rename_scan i arg s))
        \<and> (\<exists>s'. rename_scan i arg s = Inr s'))
   \<and> (\<forall>k. k \<noteq> Rename \<longrightarrow>
          dict_get (operations (state_after (rename_scan i arg s))) k = dict_get (operations s) k)"
proof (induction i arg s rule: rename_scan.induct)
  case (1 i arg s)
  let ?L = "dict_get (operations s) Rename"
  show ?case
  proof (cases "i < length ?L")
    case False
    then show ?thesis by (subst (1 2 3 4) rename_scan.simps) simp
  next
    case True
    show ?thesis
    proof (cases "?L ! i")
      case (Single c)
      with True have "\<not> rename_typed s"
        by (auto simp: rename_typed_def list_all_length)
      with True Single show ?thesis
        by (subst (1 2 3 4) rename_scan.simps) simp
    next
      case (Pair old new)
      show ?thesis
      proof (cases "arg = old \<or> arg = new")
        case False
        with 1(2) [OF True Pair] True Pair show ?thesis
          by (subst (1 2 3 4) rename_scan.simps) simp
      next
        case hit: True
        let ?s1 = "s\<lparr>conflicts := set_solved new False (set_solved old False (conflicts s)),
                     operations := dict_set (operations s) Rename (remove1 (Pair old new) ?L)\<rparr>"
        have typed: "rename_typed s \<Longrightarrow> rename_typed ?s1"
          by (auto simp: rename_typed_def dict_get_dict_set list_all_iff dest: notin_set_remove1)
        have other: "\<And>k. k \<noteq> Rename \<Longrightarrow> dict_get (operations ?s1) k = dict_get (operations s) k"
          by (simp add: dict_get_dict_set_other)
        have eq: "rename_scan i arg s = rename_scan (Suc i) arg ?s1"
          using True Pair hit by (subst rename_scan.simps) simp
        from 1(1) [OF True Pair hit] typed other show ?thesis
          unfolding eq by simp
      qed
    qed
  qed
qed


lemma remove_from_operations_loop_preserves:
  "conflict_keys (conflicts (state_after (remove_from_operations_loop ks arg s)))
     = conflict_keys (conflicts s)
   \<and> (rename_typed s \<longrightarrow>
        rename_typed (state_after (remove_from_operations_loop ks arg s))
        \<and> (\<exists>s'. remove_from_operations_loop ks arg s = Inr s'))"
proof (induction ks arbitrary: s)
  case Nil
  then show ?case by simp
next
  case (Cons k ks)
  show ?case
  proof (cases "k = Rename")
    case True
    show ?thesis
    proof (cases "rename_scan 0 arg s")
      case (Inl x)
      with rename_scan_preserves [of 0 arg s] True show ?thesis
        by (cases x) auto
    next
      case (Inr s1)
      with rename_scan_preserves [of 0 arg s] Cons.IH [of s1] True show ?thesis
        by auto
    qed
  next
    case False
    let ?s1 = "s\<lparr>conflicts := set_solved arg False (conflicts s),
                 operations := dict_set (operations s) k
                                 (remove1 (Single arg) (dict_get (operations s) k))\<rparr>"
    have "rename_typed s \<Longrightarrow> rename_typed ?s1"
      using False by (simp add: rename_typed_def dict_get_dict_set_other)
    with Cons.IH [of s] Cons.IH [of ?s1] False show ?thesis
      by auto
  qed
qed

lemma reset_dimension_loop_preserves:
  "conflict_keys (conflicts (state_after (reset_dimension_loop ns arg st s)))
     = conflict_keys (conflicts s)
   \<and> (rename_typed s \<longrightarrow>
        rename_typed (state_after (reset_dimension_loop ns arg st s))
        \<and> (\<forall>e s'. reset_dimension_loop ns arg st s = Inl (e, s') \<longrightarrow> e = ValueError))"
proof (induction ns arbitrary: s)
  case Nil
  then show ?case by simp
next
  case (Cons n ns)
  show ?case
  proof (cases "lookup s arg st")
    case None
    then show ?thesis by (simp add: mark_as_lookup)
  next
    case (Some r)
    let ?s1 = "s\<lparr>conflicts := set_solved r False (conflicts s)\<rparr>"
    have typed: "rename_typed s \<Longrightarrow> rename_typed ?s1"
      by (simp add: rename_typed_def)
    show ?thesis
    proof (cases "remove_from_operations ?s1 r")
      case (Inl x)
      with remove_from_operations_loop_preserves [of "dict_keys (operations ?s1)" r ?s1]
        typed Some show ?thesis
        by (cases x) (auto simp: mark_as_lookup remove_from_operations_def)
    next
      case (Inr s2)
      with remove_from_operations_loop_preserves [of "dict_keys (operations ?s1)" r ?s1]
        typed Some Cons.IH [of s2] show ?thesis
        by (auto simp: mark_as_lookup remove_from_operations_def)
    qed
  qed
qed

lemma do_basic_loop_rename_list:
  "operation \<noteq> Rename \<Longrightarrow>
     dict_get (operations (state_after (do_basic_loop ns st operation s))) Rename
       = dict_get (operations s) Rename"
proof (induction ns arbitrary: s)
  case Nil
  then show ?case by simp
next
  case (Cons n ns)
  then show ?case
    by (cases "lookup s n st") (auto simp: do_basic_loop_Cons dict_get_put_operation)
qed

lemma do_basic_loop_error:
  "do_basic_loop ns st operation s = Inl (e, s') \<Longrightarrow> e = ValueError"
  using do_basic_loop_failure by blast

lemma rename_dimension_preserves:
  "conflict_keys (conflicts (state_after (rename_dimension s (old, new))))
     = conflict_keys (conflicts s)
   \<and> (rename_typed s \<longrightarrow> rename_typed (state_after (rename_dimension s (old, new))))
   \<and> (\<forall>e s'. rename_dimension s (old, new) = Inl (e, s') \<longrightarrow> e = ValueError)"
  by (auto simp: rename_dimension_def assert_has_status_def Let_def rename_typed_def
      dict_get_put_operation split: option.splits)

lemma perform_preserves:
  "conflict_keys (conflicts (state_after (perform c s))) = conflict_keys (conflicts s)
   \<and> (rename_typed s \<longrightarrow>
        rename_typed (state_after (perform c s))
        \<and> (\<forall>e s'. perform c s = Inl (e, s') \<longrightarrow> e = ValueError))"
proof (cases c)
  case (AddDimension a)
  then show ?thesis
    using do_basic_loop_rename_list [of Add "get_names s a [New, Changed]" "[New, Changed]" s]
      do_basic_loop_error [of "get_names s a [New, Changed]" "[New, Changed]" Add s]
    by (simp add: add_dimension_def do_basic_def do_basic_loop_keys rename_typed_def)
next
  case (RemoveDimension a)
  then show ?thesis
    using do_basic_loop_rename_list [of Remove "get_names s a [Missing]" "[Missing]" s]
      do_basic_loop_error [of "get_names s a [Missing]" "[Missing]" Remove s]
    by (simp add: remove_dimension_def do_basic_def do_basic_loop_keys rename_typed_def)
next
  case (ResetDimension a)
  then show ?thesis
    using reset_dimension_loop_preserves
      [of "get_names s a [Missing, New, Changed]" a "[Missing, New, Changed]" s]
    by (simp add: reset_dimension_def Let_def)
next
  case (RenameDimension old new)
  then show ?thesis
    using rename_dimension_preserves [of s old new] by simp
qed

lemma run_preserves:
  "conflict_keys (conflicts (run calls s)) = conflict_keys (conflicts s)
   \<and> (rename_typed s \<longrightarrow> rename_typed (run calls s))"
proof (induction calls arbitrary: s)
  case Nil
  then show ?case by simp
next
  case (Cons c calls)
  from perform_preserves [of c s] Cons.IH [of "state_after (perform c s)"]
  show ?case by simp
qed

lemma map_cname_keys: "map cname cs = map (\<lambda>k. name (fst k)) (conflict_keys cs)"
  by (simp add: conflict_keys_def cname_def)


lemma length_filter_distinct:
  "distinct (map f xs) \<Longrightarrow> length (filter (\<lambda>x. f x = y \<and> Q x) xs) \<le> 1"
proof (induction xs)
  case Nil
  then show ?case by simp
next
  case (Cons x xs)
  show ?case
  proof (cases "f x = y")
    case True
    with Cons.prems have "\<forall>z \<in> set xs. f z \<noteq> y" by (metis distinct.simps(2) imageI list.simps(9) set_map)
    then have "filter (\<lambda>x. f x = y \<and> Q x) xs = []" by (simp add: filter_empty_conv)
    then show ?thesis by simp
  next
    case False
    with Cons show ?thesis by simp
  qed
qed

text \<open>
  C10: in a session on well-formed spaces, that is after any sequence of calls of
  add, remove, reset and rename (failed calls included) from the state after
  detection, the conflict set has the members detection gave it, every dimension
  name occurs in at most one conflict, so a name has one status at most, and every
  lookup, over all conflicts as in \<open>get_dimension_conflict\<close> or over the conflicts of
  some statuses as in \<open>_assert_has_status\<close>, has at most one match; the only
  exception a call raises is the \<open>ValueError\<close> of a name that is not found.
\<close>

theorem conflict_names_unique_in_session:
  assumes "wf_space parent" and "wf_space child"
  shows "conflict_keys (conflicts (run calls (init_builder parent child)))
           = conflict_keys (find_conflicts parent child)
       \<and> distinct (map cname (conflicts (run calls (init_builder parent child))))
       \<and> length (conflicts_named n (conflicts (run calls (init_builder parent child)))) \<le> 1
       \<and> length (filter (\<lambda>(r, c). cname c = n)
                   (filter_conflicts_status (run calls (init_builder parent child)) st)) \<le> 1
       \<and> (perform c (run calls (init_builder parent child)) = Inl (e, s') \<longrightarrow> e = ValueError)"
proof -
  let ?s = "run calls (init_builder parent child)"
  have keys: "conflict_keys (conflicts ?s) = conflict_keys (find_conflicts parent child)"
    using run_preserves [of calls "init_builder parent child"] by (simp add: init_builder_def)
  have "map cname (conflicts ?s) = map cname (find_conflicts parent child)"
    by (simp only: map_cname_keys keys)
  then have dist: "distinct (map cname (conflicts ?s))"
    using distinct_names_find_conflicts [OF assms] by simp
  have one: "length (conflicts_named n (conflicts ?s)) \<le> 1"
    using length_filter_distinct [OF dist, of n "\<lambda>c. True"] by (simp add: conflicts_named_def)
  have "length (filter (\<lambda>(r, c). cname c = n) (filter_conflicts_status ?s st))
      = length (map snd (filter (\<lambda>(r, c). cname c = n \<and> status c \<in> set st)
                 (enumerate 0 (conflicts ?s))))"
    by (simp add: filter_conflicts_status_def filter_conflicts_def case_prod_unfold conj_commute)
  also have "\<dots> = length (filter (\<lambda>c. cname c = n \<and> status c \<in> set st) (conflicts ?s))"
    by (simp only: map_snd_filter_enumerate)
  also have "\<dots> \<le> 1"
    using dist by (rule length_filter_distinct)
  finally have filtered: "length (filter (\<lambda>(r, c). cname c = n) (filter_conflicts_status ?s st)) \<le> 1" .
  have "rename_typed (init_builder parent child)"
    by (simp add: rename_typed_def init_builder_def)
  then have "rename_typed ?s"
    using run_preserves [of calls "init_builder parent child"] by simp
  then have err: "perform c ?s = Inl (e, s') \<longrightarrow> e = ValueError"
    using perform_preserves [of c ?s] by blast
  from keys dist one filtered err show ?thesis by blast
qed

theorem conflict_names_unique_in_session_witness:
  "wf_space example_parent \<and> wf_space example_child
   \<and> perform (AddDimension ''~missing'')
        (run [AddDimension ''new'', RenameDimension ''missing'' ''new'']
           (init_builder example_parent example_child))
       = Inl (ValueError,
              run [AddDimension ''new'', RenameDimension ''missing'' ''new'']
                (init_builder example_parent example_child))
   \<and> distinct (map cname (conflicts
        (run [AddDimension ''new'', RenameDimension ''missing'' ''new'']
           (init_builder example_parent example_child))))
   \<and> length (conflicts_named ''/new'' (conflicts
        (run [AddDimension ''new'', RenameDimension ''missing'' ''new'']
           (init_builder example_parent example_child)))) = 1"
proof -
  have wf: "wf_space example_parent" "wf_space example_child"
    by (simp_all add: wf_space_def example_parent_def example_child_def)
  show ?thesis
    using wf conflict_names_unique_in_session [OF wf,
        of "[AddDimension ''new'', RenameDimension ''missing'' ''new'']" "''/new''"
           "[New, Changed]" "AddDimension ''~missing''" ValueError
           "run [AddDimension ''new'', RenameDimension ''missing'' ''new'']
                (init_builder example_parent example_child)"]
    by (simp add: example_defs rename_dimension_def conflicts_named_def)
qed

section \<open>Scanning the rename list\<close>

lemma rename_scan_no_mention:
  assumes "dict_get (operations s) Rename = pre @ zs" and "length pre = i"
    and "\<forall>z \<in> set zs. is_pair z \<and> \<not> mentions arg z"
  shows "rename_scan i arg s = Inr s"
  using assms
proof (induction zs arbitrary: pre i)
  case Nil
  then show ?case by (subst rename_scan.simps) simp
next
  case (Cons z zs)
  from Cons.prems obtain a b where z: "z = Pair a b" "arg \<noteq> a" "arg \<noteq> b"
    by (cases z) auto
  from Cons.prems have lt: "i < length (dict_get (operations s) Rename)"
    and at: "dict_get (operations s) Rename ! i = z"
    by (simp_all add: nth_append)
  have "rename_scan i arg s = rename_scan (Suc i) arg s"
    using lt at z by (subst rename_scan.simps) simp
  also have "\<dots> = Inr s"
    using Cons.prems by (intro Cons.IH [of "pre @ [z]"]) simp_all
  finally show ?case .
qed

lemma rename_scan_one_mention:
  assumes "dict_get (operations s) Rename = pre @ xs @ Pair a b # ys" and "length pre = i"
    and "\<forall>z \<in> set xs \<union> set ys. is_pair z \<and> \<not> mentions arg z"
    and "arg = a \<or> arg = b" and "Pair a b \<notin> set pre"
  shows "rename_scan i arg s =
           Inr (s\<lparr>conflicts := set_solved b False (set_solved a False (conflicts s)),
                  operations := dict_set (operations s) Rename (pre @ xs @ ys)\<rparr>)"
  using assms
proof (induction xs arbitrary: pre i)
  case Nil
  let ?L = "dict_get (operations s) Rename"
  let ?s1 = "s\<lparr>conflicts := set_solved b False (set_solved a False (conflicts s)),
               operations := dict_set (operations s) Rename (pre @ ys)\<rparr>"
  from Nil have lt: "i < length ?L" and at: "?L ! i = Pair a b"
    by (simp_all add: nth_append)
  from Nil have rm: "remove1 (Pair a b) ?L = pre @ ys"
    by (simp add: remove1_append)
  have step: "rename_scan i arg s = rename_scan (Suc i) arg ?s1"
    using lt at Nil.prems(4) rm by (subst rename_scan.simps) simp
  have L1: "dict_get (operations ?s1) Rename = pre @ ys"
    by (simp add: dict_get_dict_set)
  have "rename_scan (Suc i) arg ?s1 = Inr ?s1"
  proof (cases ys)
    case Nil
    with L1 \<open>length pre = i\<close> show ?thesis
      by (subst rename_scan.simps) simp
  next
    case (Cons y ys')
    show ?thesis
    proof (rule rename_scan_no_mention [of _ "pre @ [y]" ys'])
      show "dict_get (operations ?s1) Rename = (pre @ [y]) @ ys'"
        using L1 Cons by simp
      show "length (pre @ [y]) = Suc i" using \<open>length pre = i\<close> by simp
      show "\<forall>z \<in> set ys'. is_pair z \<and> \<not> mentions arg z"
        using Nil.prems(3) Cons by simp
    qed
  qed
  with step show ?case by simp
next
  case (Cons x xs)
  let ?L = "dict_get (operations s) Rename"
  from Cons.prems obtain c d where x: "x = Pair c d" "arg \<noteq> c" "arg \<noteq> d"
    by (cases x) auto
  from Cons.prems have lt: "i < length ?L" and at: "?L ! i = x"
    by (simp_all add: nth_append)
  have ne: "x \<noteq> Pair a b"
    using x Cons.prems(4) by auto
  have "rename_scan i arg s = rename_scan (Suc i) arg s"
    using lt at x by (subst rename_scan.simps) simp
  also have "\<dots> = Inr (s\<lparr>conflicts := set_solved b False (set_solved a False (conflicts s)),
                  operations := dict_set (operations s) Rename ((pre @ [x]) @ xs @ ys)\<rparr>)"
    using Cons.prems ne by (intro Cons.IH [of "pre @ [x]"]) simp_all
  finally show ?case by simp
qed

section \<open>Removing a conflict from the operation log\<close>

lemma purge_inv_rename_step:
  assumes typed: "rename_typed s0"
    and one: "length (filter (mentions r) (dict_get (operations s0) Rename)) \<le> 1"
    and inv: "purge_inv r s0 ds t"
  shows "\<exists>t1. rename_scan 0 r t = Inr t1 \<and> purge_inv r s0 (insert Rename ds) t1"
proof -
  let ?L0 = "dict_get (operations s0) Rename"
  let ?Lt = "dict_get (operations t) Rename"
  from typed have pairs: "\<forall>z \<in> set ?L0. is_pair z"
    by (simp add: rename_typed_def list_all_iff)
  show ?thesis
  proof (cases "Rename \<in> ds")
    case True
    with inv have Lt: "?Lt = filter (\<lambda>p. \<not> mentions r p) ?L0"
      by (simp add: purge_inv_def purge_def hits_def)
    have "rename_scan 0 r t = Inr t"
      by (rule rename_scan_no_mention [of _ "[]" ?Lt]) (use Lt pairs in auto)
    moreover have "insert Rename ds = ds" using True by auto
    ultimately show ?thesis using inv by simp
  next
    case False
    with inv have Lt: "?Lt = ?L0"
      by (simp add: purge_inv_def)
    show ?thesis
    proof (cases "filter (mentions r) ?L0")
      case Nil
      then have none: "\<forall>z \<in> set ?L0. \<not> mentions r z"
        by (simp add: filter_empty_conv)
      have scan: "rename_scan 0 r t = Inr t"
        by (rule rename_scan_no_mention [of _ "[]" ?L0]) (use Lt pairs none in auto)
      have keep: "purge r Rename ?L0 = ?L0"
        using none by (simp add: purge_def hits_def)
      have "purge_inv r s0 (insert Rename ds) t"
        unfolding purge_inv_def
      proof (intro conjI allI impI)
        show "dict_keys (operations t) = dict_keys (operations s0)"
          using inv by (simp add: purge_inv_def)
        show "length (conflicts t) = length (conflicts s0)"
          using inv by (simp add: purge_inv_def)
      next
        fix k
        show "dict_get (operations t) k =
                (if k \<in> insert Rename ds then purge r k (dict_get (operations s0) k)
                 else dict_get (operations s0) k)"
          using inv keep Lt by (auto simp: purge_inv_def)
      next
        fix j
        assume j: "j < length (conflicts s0)"
        have "(\<exists>k \<in> insert Rename ds. \<exists>p \<in> set (dict_get (operations s0) k). hits r k p \<and> mentions j p)
            \<longleftrightarrow> (\<exists>k \<in> ds. \<exists>p \<in> set (dict_get (operations s0) k). hits r k p \<and> mentions j p)"
          using none by (auto simp: hits_def)
        then show "conflicts t ! j =
              (if \<exists>k \<in> insert Rename ds. \<exists>p \<in> set (dict_get (operations s0) k). hits r k p \<and> mentions j p
               then (conflicts s0 ! j)\<lparr>is_solved := False\<rparr>
               else conflicts s0 ! j)"
          using inv j by (simp add: purge_inv_def)
      qed
      with scan show ?thesis by blast
    next
      case (Cons p ps)
      with one have ps: "ps = []" by (cases ps) (simp_all add: Cons)
      from Cons ps have "filter (mentions r) ?L0 = [p]" by simp
      then obtain xs ys where split: "?L0 = xs @ p # ys"
        and xs: "\<forall>u \<in> set xs. \<not> mentions r u" and p: "mentions r p"
        and ys0: "filter (mentions r) ys = []"
        unfolding filter_eq_Cons_iff by auto
      from ys0 have ys: "\<forall>u \<in> set ys. \<not> mentions r u"
        by (simp add: filter_empty_conv)
      from pairs split obtain a b where ab: "p = Pair a b"
        by (cases p) auto
      with p have hit: "r = a \<or> r = b" by simp
      let ?t1 = "t\<lparr>conflicts := set_solved b False (set_solved a False (conflicts t)),
                   operations := dict_set (operations t) Rename ([] @ xs @ ys)\<rparr>"
      have scan: "rename_scan 0 r t = Inr ?t1"
        by (rule rename_scan_one_mention) (use Lt split ab xs ys pairs hit in auto)
      have purged: "purge r Rename ?L0 = xs @ ys"
        using split xs ys p by (simp add: purge_def hits_def)
      have inkeys: "Rename \<in> set (dict_keys (operations t))"
      proof (rule ccontr)
        assume "Rename \<notin> set (dict_keys (operations t))"
        then have "?Lt = []" by (rule dict_get_absent)
        with Lt split show False by simp
      qed
      have only: "\<And>q. q \<in> set ?L0 \<Longrightarrow> mentions r q \<Longrightarrow> q = Pair a b"
        using split xs ys ab by auto
      have "purge_inv r s0 (insert Rename ds) ?t1"
        unfolding purge_inv_def
      proof (intro conjI allI impI)
        show "dict_keys (operations ?t1) = dict_keys (operations s0)"
          using inv inkeys by (simp add: purge_inv_def dict_keys_dict_set)
        show "length (conflicts ?t1) = length (conflicts s0)"
          using inv by (simp add: purge_inv_def)
      next
        fix k
        show "dict_get (operations ?t1) k =
                (if k \<in> insert Rename ds then purge r k (dict_get (operations s0) k)
                 else dict_get (operations s0) k)"
          using inv purged by (auto simp: purge_inv_def dict_get_dict_set_if)
      next
        fix j
        assume j: "j < length (conflicts s0)"
        have A: "(\<exists>k \<in> insert Rename ds. \<exists>p \<in> set (dict_get (operations s0) k). hits r k p \<and> mentions j p)
            \<longleftrightarrow> (j = a \<or> j = b)
               \<or> (\<exists>k \<in> ds. \<exists>p \<in> set (dict_get (operations s0) k). hits r k p \<and> mentions j p)"
          (is "?new \<longleftrightarrow> _ \<or> ?old")
        proof
          assume ?new
          then obtain k q where kq: "k \<in> insert Rename ds" "q \<in> set (dict_get (operations s0) k)"
            "hits r k q" "mentions j q"
            by blast
          show "(j = a \<or> j = b) \<or> ?old"
          proof (cases "k = Rename")
            case True
            with kq have "q = Pair a b" using only by (simp add: hits_def)
            with kq show ?thesis by simp
          next
            case False
            with kq show ?thesis by blast
          qed
        next
          assume "(j = a \<or> j = b) \<or> ?old"
          then show ?new
          proof
            assume "j = a \<or> j = b"
            then have "Pair a b \<in> set ?L0 \<and> hits r Rename (Pair a b) \<and> mentions j (Pair a b)"
              using split ab hit by (auto simp: hits_def)
            then show ?new by blast
          next
            assume ?old
            then show ?new by blast
          qed
        qed
        have len: "length (conflicts t) = length (conflicts s0)"
          using inv by (simp add: purge_inv_def)
        have old: "conflicts t ! j = (if ?old then (conflicts s0 ! j)\<lparr>is_solved := False\<rparr>
               else conflicts s0 ! j)"
          using inv j by (simp add: purge_inv_def)
        have "conflicts ?t1 ! j =
            (if j = a \<or> j = b then (conflicts t ! j)\<lparr>is_solved := False\<rparr> else conflicts t ! j)"
          using j len by (auto simp: nth_set_solved)
        also have "\<dots> = (if ?new then (conflicts s0 ! j)\<lparr>is_solved := False\<rparr>
               else conflicts s0 ! j)"
          unfolding A old by auto
        finally show "conflicts ?t1 ! j = (if ?new then (conflicts s0 ! j)\<lparr>is_solved := False\<rparr>
               else conflicts s0 ! j)" .
      qed
      with scan show ?thesis by blast
    qed
  qed
qed


lemma purge_inv_basic_step:
  assumes k: "k \<noteq> Rename"
    and dist: "distinct (dict_get (operations s0) k)"
    and inv: "purge_inv r s0 ds t"
  shows "purge_inv r s0 (insert k ds)
           (if Single r \<in> set (dict_get (operations t) k)
            then t\<lparr>conflicts := set_solved r False (conflicts t),
                   operations := dict_set (operations t) k
                                   (remove1 (Single r) (dict_get (operations t) k))\<rparr>
            else t)"
proof (cases "Single r \<in> set (dict_get (operations t) k)")
  case False
  have same: "purge r k (dict_get (operations t) k) = dict_get (operations t) k"
    using False k by (auto simp: purge_def hits_def filter_id_conv)
  have lists: "dict_get (operations t) k = purge r k (dict_get (operations s0) k)"
  proof (cases "k \<in> ds")
    case True
    with inv show ?thesis by (simp add: purge_inv_def)
  next
    case False
    with inv have "dict_get (operations t) k = dict_get (operations s0) k"
      by (simp add: purge_inv_def)
    with same show ?thesis by simp
  qed
  have "purge_inv r s0 (insert k ds) t"
    unfolding purge_inv_def
  proof (intro conjI allI impI)
    show "dict_keys (operations t) = dict_keys (operations s0)"
      using inv by (simp add: purge_inv_def)
    show "length (conflicts t) = length (conflicts s0)"
      using inv by (simp add: purge_inv_def)
  next
    fix k'
    show "dict_get (operations t) k' =
            (if k' \<in> insert k ds then purge r k' (dict_get (operations s0) k')
             else dict_get (operations s0) k')"
      using inv lists by (auto simp: purge_inv_def)
  next
    fix j
    assume j: "j < length (conflicts s0)"
    have "(\<exists>k' \<in> insert k ds. \<exists>p \<in> set (dict_get (operations s0) k'). hits r k' p \<and> mentions j p)
        \<longleftrightarrow> (\<exists>k' \<in> ds. \<exists>p \<in> set (dict_get (operations s0) k'). hits r k' p \<and> mentions j p)"
    proof (cases "k \<in> ds")
      case True
      then have "insert k ds = ds" by auto
      then show ?thesis by simp
    next
      case notin: False
      with inv have "dict_get (operations t) k = dict_get (operations s0) k"
        by (simp add: purge_inv_def)
      with False k have "\<not> (\<exists>p \<in> set (dict_get (operations s0) k). hits r k p \<and> mentions j p)"
        by (auto simp: hits_def)
      then show ?thesis by blast
    qed
    then show "conflicts t ! j =
          (if \<exists>k' \<in> insert k ds. \<exists>p \<in> set (dict_get (operations s0) k'). hits r k' p \<and> mentions j p
           then (conflicts s0 ! j)\<lparr>is_solved := False\<rparr>
           else conflicts s0 ! j)"
      using inv j by (simp add: purge_inv_def)
  qed
  with False show ?thesis by simp
next
  case True
  let ?Lt = "dict_get (operations t) k"
  let ?L0 = "dict_get (operations s0) k"
  let ?t1 = "t\<lparr>conflicts := set_solved r False (conflicts t),
               operations := dict_set (operations t) k (remove1 (Single r) ?Lt)\<rparr>"
  have notin: "k \<notin> ds"
  proof
    assume "k \<in> ds"
    with inv have "?Lt = purge r k ?L0" by (simp add: purge_inv_def)
    with True k show False by (simp add: purge_def hits_def)
  qed
  with inv have Lt: "?Lt = ?L0" by (simp add: purge_inv_def)
  have rm: "remove1 (Single r) ?Lt = purge r k ?L0"
    using dist k Lt
    by (simp add: distinct_remove1_removeAll removeAll_filter_not_eq purge_def hits_def eq_commute)
  have inkeys: "k \<in> set (dict_keys (operations t))"
  proof (rule ccontr)
    assume "k \<notin> set (dict_keys (operations t))"
    then have "?Lt = []" by (rule dict_get_absent)
    with True show False by simp
  qed
  have "purge_inv r s0 (insert k ds) ?t1"
    unfolding purge_inv_def
  proof (intro conjI allI impI)
    show "dict_keys (operations ?t1) = dict_keys (operations s0)"
      using inv inkeys by (simp add: purge_inv_def dict_keys_dict_set)
    show "length (conflicts ?t1) = length (conflicts s0)"
      using inv by (simp add: purge_inv_def)
  next
    fix k'
    show "dict_get (operations ?t1) k' =
            (if k' \<in> insert k ds then purge r k' (dict_get (operations s0) k')
             else dict_get (operations s0) k')"
      using inv rm by (auto simp: purge_inv_def dict_get_dict_set_if)
  next
    fix j
    assume j: "j < length (conflicts s0)"
    let ?old = "\<exists>k' \<in> ds. \<exists>p \<in> set (dict_get (operations s0) k'). hits r k' p \<and> mentions j p"
    let ?new = "\<exists>k' \<in> insert k ds. \<exists>p \<in> set (dict_get (operations s0) k'). hits r k' p \<and> mentions j p"
    have here: "(\<exists>p \<in> set ?L0. hits r k p \<and> mentions j p) \<longleftrightarrow> j = r"
      using True Lt k by (auto simp: hits_def)
    have A: "?new \<longleftrightarrow> j = r \<or> ?old"
      using here by blast
    have len: "length (conflicts t) = length (conflicts s0)"
      using inv by (simp add: purge_inv_def)
    have old: "conflicts t ! j = (if ?old then (conflicts s0 ! j)\<lparr>is_solved := False\<rparr>
           else conflicts s0 ! j)"
      using inv j by (simp add: purge_inv_def)
    have "conflicts ?t1 ! j =
        (if j = r then (conflicts t ! j)\<lparr>is_solved := False\<rparr> else conflicts t ! j)"
      using j len by (auto simp: nth_set_solved)
    also have "\<dots> = (if ?new then (conflicts s0 ! j)\<lparr>is_solved := False\<rparr>
           else conflicts s0 ! j)"
      unfolding A old by auto
    finally show "conflicts ?t1 ! j = (if ?new then (conflicts s0 ! j)\<lparr>is_solved := False\<rparr>
           else conflicts s0 ! j)" .
  qed
  with True show ?thesis by simp
qed

lemma remove_from_operations_loop_purge:
  assumes typed: "rename_typed s0"
    and dist: "\<forall>k. distinct (dict_get (operations s0) k)"
    and one: "length (filter (mentions r) (dict_get (operations s0) Rename)) \<le> 1"
    and inv: "purge_inv r s0 ds t"
  shows "\<exists>t'. remove_from_operations_loop ks r t = Inr t' \<and> purge_inv r s0 (ds \<union> set ks) t'"
  using inv
proof (induction ks arbitrary: ds t)
  case Nil
  then show ?case by simp
next
  case (Cons k ks)
  show ?case
  proof (cases "k = Rename")
    case True
    from purge_inv_rename_step [OF typed one Cons.prems]
    obtain t1 where t1: "rename_scan 0 r t = Inr t1" "purge_inv r s0 (insert Rename ds) t1"
      by blast
    from Cons.IH [OF t1(2)] obtain t' where
      "remove_from_operations_loop ks r t1 = Inr t'"
      "purge_inv r s0 (insert Rename ds \<union> set ks) t'"
      by blast
    with t1 True show ?thesis by simp
  next
    case False
    let ?t1 = "if Single r \<in> set (dict_get (operations t) k)
            then t\<lparr>conflicts := set_solved r False (conflicts t),
                   operations := dict_set (operations t) k
                                   (remove1 (Single r) (dict_get (operations t) k))\<rparr>
            else t"
    have "purge_inv r s0 (insert k ds) ?t1"
      using False dist Cons.prems by (intro purge_inv_basic_step) simp_all
    from Cons.IH [OF this] obtain t' where
      "remove_from_operations_loop ks r ?t1 = Inr t'"
      "purge_inv r s0 (insert k ds \<union> set ks) t'"
      by blast
    with False show ?thesis by (cases "Single r \<in> set (dict_get (operations t) k)") simp_all
  qed
qed

section \<open>Reset of a literal name\<close>

lemma all_operations: "(\<forall>k::operation. P k) \<longleftrightarrow> P Add \<and> P Rename \<and> P Remove"
  by (metis operation.exhaust)

lemma ex_operations: "(\<exists>k::operation. P k) \<longleftrightarrow> P Add \<or> P Rename \<or> P Remove"
  by (metis operation.exhaust)

lemma distinct_lists_iff: "distinct_lists s \<longleftrightarrow> (\<forall>k. distinct (dict_get (operations s) k))"
  by (simp add: distinct_lists_def all_operations)

lemma affected_iff:
  "affected r s j \<longleftrightarrow>
     (\<exists>k. \<exists>p \<in> set (dict_get (operations s) k). hits r k p \<and> mentions j p)"
  by (simp add: affected_def ex_operations list_ex_iff)

lemma get_names_literal:
  "is_literal x \<Longrightarrow> CHR '' '' \<notin> set x \<Longrightarrow> get_names s x st = [x]"
  by (simp add: get_names_single is_literal_def)

lemma reset_dimension_literal:
  assumes lit: "is_literal x" "CHR '' '' \<notin> set x"
    and look: "lookup s x [Missing, New, Changed] = Some r"
    and typed: "rename_typed s" and dist: "distinct_lists s"
    and one: "length (filter (mentions r) (dict_get (operations s) Rename)) \<le> 1"
  shows "\<exists>s'. reset_dimension s x = Inr s'
           \<and> dict_keys (operations s') = dict_keys (operations s)
           \<and> length (conflicts s') = length (conflicts s)
           \<and> (\<forall>k. dict_get (operations s') k = purge r k (dict_get (operations s) k))
           \<and> (\<forall>j < length (conflicts s).
                 conflicts s' ! j =
                   (if j = r \<or> affected r s j then (conflicts s ! j)\<lparr>is_solved := False\<rparr>
                    else conflicts s ! j))"
proof -
  let ?st = "[Missing, New, Changed]"
  let ?s0 = "s\<lparr>conflicts := set_solved r False (conflicts s)\<rparr>"
  have typed0: "rename_typed ?s0" using typed by (simp add: rename_typed_def)
  have dist0: "\<forall>k. distinct (dict_get (operations ?s0) k)"
    using dist by (simp add: distinct_lists_iff)
  have one0: "length (filter (mentions r) (dict_get (operations ?s0) Rename)) \<le> 1"
    using one by simp
  have inv0: "purge_inv r ?s0 {} ?s0"
    by (simp add: purge_inv_def)
  from remove_from_operations_loop_purge [OF typed0 dist0 one0 inv0, of "dict_keys (operations ?s0)"]
  obtain t where t: "remove_from_operations_loop (dict_keys (operations ?s0)) r ?s0 = Inr t"
    and inv: "purge_inv r ?s0 (set (dict_keys (operations s))) t"
    by auto
  have res: "reset_dimension s x = Inr t"
    using t look
    by (simp add: reset_dimension_def Let_def get_names_literal [OF lit] mark_as_lookup
        remove_from_operations_def)
  have keys: "dict_keys (operations t) = dict_keys (operations s)"
    using inv by (simp add: purge_inv_def)
  have len: "length (conflicts t) = length (conflicts s)"
    using inv by (simp add: purge_inv_def)
  have lists: "\<forall>k. dict_get (operations t) k = purge r k (dict_get (operations s) k)"
  proof
    fix k
    show "dict_get (operations t) k = purge r k (dict_get (operations s) k)"
    proof (cases "k \<in> set (dict_keys (operations s))")
      case True
      with inv show ?thesis by (simp add: purge_inv_def)
    next
      case False
      then have "dict_get (operations s) k = []" by (rule dict_get_absent)
      with inv False show ?thesis by (simp add: purge_inv_def purge_def)
    qed
  qed
  have cs: "\<forall>j < length (conflicts s).
                 conflicts t ! j =
                   (if j = r \<or> affected r s j then (conflicts s ! j)\<lparr>is_solved := False\<rparr>
                    else conflicts s ! j)"
  proof (intro allI impI)
    fix j
    assume j: "j < length (conflicts s)"
    have A: "(\<exists>k \<in> set (dict_keys (operations s)).
                \<exists>p \<in> set (dict_get (operations s) k). hits r k p \<and> mentions j p)
           \<longleftrightarrow> affected r s j"
      unfolding affected_iff
    proof
      assume "\<exists>k. \<exists>p \<in> set (dict_get (operations s) k). hits r k p \<and> mentions j p"
      then obtain k p where kp: "p \<in> set (dict_get (operations s) k)" "hits r k p" "mentions j p"
        by blast
      have "k \<in> set (dict_keys (operations s))"
      proof (rule ccontr)
        assume "k \<notin> set (dict_keys (operations s))"
        then have "dict_get (operations s) k = []" by (rule dict_get_absent)
        with kp show False by simp
      qed
      with kp show "\<exists>k \<in> set (dict_keys (operations s)).
                \<exists>p \<in> set (dict_get (operations s) k). hits r k p \<and> mentions j p"
        by blast
    qed blast
    have "conflicts t ! j =
        (if affected r s j then (set_solved r False (conflicts s) ! j)\<lparr>is_solved := False\<rparr>
         else set_solved r False (conflicts s) ! j)"
      using inv j A by (simp add: purge_inv_def)
    then show "conflicts t ! j =
                   (if j = r \<or> affected r s j then (conflicts s ! j)\<lparr>is_solved := False\<rparr>
                    else conflicts s ! j)"
      using j by (auto simp: nth_set_solved)
  qed
  from res keys len lists cs show ?thesis by blast
qed


lemma unsolve_unsolved: "\<not> is_solved c \<Longrightarrow> c\<lparr>is_solved := False\<rparr> = c"
  by simp

lemma add_then_reset:
  assumes lit: "is_literal x" "CHR '' '' \<notin> set x"
    and names: "distinct (map cname (conflicts s))"
    and r: "r < length (conflicts s)" "cname (conflicts s ! r) = ''/'' @ x"
    and typed: "rename_typed s" and dist: "distinct_lists s"
    and st: "status (conflicts s ! r) \<in> set [New, Changed]"
    and unsolved: "\<not> is_solved (conflicts s ! r)"
    and nohit: "\<not> affected r s r"
  shows "\<exists>s1 s2. add_dimension s x = Inr s1 \<and> reset_dimension s1 x = Inr s2
           \<and> is_solved (conflicts s1 ! r)
           \<and> Single r \<in> set (dict_get (operations s1) Add)
           \<and> conflicts s2 = conflicts s
           \<and> (\<forall>k. dict_get (operations s2) k = dict_get (operations s) k)
           \<and> dict_keys (operations s2) =
               (if Add \<in> set (dict_keys (operations s)) then dict_keys (operations s)
                else dict_keys (operations s) @ [Add])"
proof -
  let ?all = "[Missing, New, Changed]"
  let ?s1 = "put_operation (s\<lparr>conflicts := set_solved r True (conflicts s)\<rparr>) Add (Single r)"
  from nohit have nh: "\<And>k p. p \<in> set (dict_get (operations s) k) \<Longrightarrow> \<not> (hits r k p \<and> mentions r p)"
    unfolding affected_iff by blast
  have noadd: "Single r \<notin> set (dict_get (operations s) Add)"
    using nh [of "Single r" Add] by (auto simp: hits_def)
  have noremove: "Single r \<notin> set (dict_get (operations s) Remove)"
    using nh [of "Single r" Remove] by (auto simp: hits_def)
  have norename: "\<forall>p \<in> set (dict_get (operations s) Rename). \<not> mentions r p"
    using nh [of _ Rename] by (auto simp: hits_def)
  have "lookup s x [New, Changed] = Some r"
    using names r st by (rule lookup_distinct)
  then have first: "add_dimension s x = Inr ?s1"
    by (simp add: add_dimension_def do_basic_def get_names_literal [OF lit] do_basic_loop_Cons)
  have lists1: "\<And>k. dict_get (operations ?s1) k =
      (if k = Add then dict_get (operations s) Add @ [Single r] else dict_get (operations s) k)"
    using noadd by (simp add: dict_get_put_operation)
  have "status (conflicts s ! r) \<in> set ?all"
    by (cases "status (conflicts s ! r)") simp_all
  with names r have "lookup s x ?all = Some r"
    by (intro lookup_distinct)
  moreover have "conflict_keys (conflicts ?s1) = conflict_keys (conflicts s)"
    by simp
  ultimately have look1: "lookup ?s1 x ?all = Some r"
    using lookup_keys by metis
  have typed1: "rename_typed ?s1"
    using typed by (simp add: rename_typed_def lists1)
  have dist1: "distinct_lists ?s1"
    using dist noadd by (simp add: distinct_lists_def lists1)
  have "filter (mentions r) (dict_get (operations ?s1) Rename) = []"
    using norename by (simp add: lists1 filter_empty_conv)
  then have one1: "length (filter (mentions r) (dict_get (operations ?s1) Rename)) \<le> 1"
    by simp
  from reset_dimension_literal [OF lit look1 typed1 dist1 one1]
  obtain s2 where s2: "reset_dimension ?s1 x = Inr s2"
    and keys2: "dict_keys (operations s2) = dict_keys (operations ?s1)"
    and len2: "length (conflicts s2) = length (conflicts ?s1)"
    and lists2: "\<forall>k. dict_get (operations s2) k = purge r k (dict_get (operations ?s1) k)"
    and cs2: "\<forall>j < length (conflicts ?s1).
                 conflicts s2 ! j =
                   (if j = r \<or> affected r ?s1 j then (conflicts ?s1 ! j)\<lparr>is_solved := False\<rparr>
                    else conflicts ?s1 ! j)"
    by blast
  have solved1: "is_solved (conflicts ?s1 ! r)"
    using r by (simp add: nth_set_solved)
  have in1: "Single r \<in> set (dict_get (operations ?s1) Add)"
    by (simp add: lists1)
  have restored: "\<forall>k. dict_get (operations s2) k = dict_get (operations s) k"
  proof
    fix k
    show "dict_get (operations s2) k = dict_get (operations s) k"
    proof (cases k)
      case Add
      then show ?thesis
        using lists2 noadd by (auto simp: lists1 purge_def hits_def filter_id_conv)
    next
      case Rename
      then show ?thesis
        using lists2 norename by (auto simp: lists1 purge_def hits_def filter_id_conv)
    next
      case Remove
      then show ?thesis
        using lists2 noremove by (auto simp: lists1 purge_def hits_def filter_id_conv)
    qed
  qed
  have aff: "\<And>j. affected r ?s1 j \<Longrightarrow> j = r"
  proof -
    fix j
    assume "affected r ?s1 j"
    then obtain k p where kp: "p \<in> set (dict_get (operations ?s1) k)" "hits r k p" "mentions j p"
      unfolding affected_iff by blast
    show "j = r"
    proof (cases "k = Rename")
      case True
      with kp norename show ?thesis by (simp add: lists1 hits_def)
    next
      case False
      with kp show ?thesis by (simp add: hits_def)
    qed
  qed
  have conf: "conflicts s2 = conflicts s"
  proof (rule nth_equalityI)
    show "length (conflicts s2) = length (conflicts s)"
      using len2 by simp
  next
    fix j
    assume "j < length (conflicts s2)"
    with len2 have j: "j < length (conflicts s)" by simp
    show "conflicts s2 ! j = conflicts s ! j"
    proof (cases "j = r")
      case True
      with cs2 j have "conflicts s2 ! j = (conflicts ?s1 ! r)\<lparr>is_solved := False\<rparr>"
        by simp
      also have "\<dots> = (conflicts s ! r)\<lparr>is_solved := False\<rparr>"
        using r by (simp add: nth_set_solved)
      also have "\<dots> = conflicts s ! r"
        using unsolved by (rule unsolve_unsolved)
      finally show ?thesis using True by simp
    next
      case False
      with aff have "\<not> affected r ?s1 j" by blast
      with cs2 j False have "conflicts s2 ! j = conflicts ?s1 ! j" by simp
      with False show ?thesis by (simp add: nth_set_solved)
    qed
  qed
  have keys: "dict_keys (operations s2) =
               (if Add \<in> set (dict_keys (operations s)) then dict_keys (operations s)
                else dict_keys (operations s) @ [Add])"
    using keys2 by (simp add: dict_keys_put_operation)
  from first s2 solved1 in1 conf restored keys show ?thesis by blast
qed

section \<open>Reset after add\<close>

lemma reset_dimension_raises:
  assumes "get_names s arg [Missing, New, Changed] \<noteq> []"
    and "lookup s arg [Missing, New, Changed] = None"
  shows "reset_dimension s arg = Inl (ValueError, s)"
proof -
  from assms(1) obtain n ns where "get_names s arg [Missing, New, Changed] = n # ns"
    by (cases "get_names s arg [Missing, New, Changed]") auto
  with assms(2) show ?thesis
    by (simp add: reset_dimension_def Let_def mark_as_lookup)
qed

text \<open>
  C4 on the wildcard scenario after \<open>add_dimension\<close> of \<open>db.*\<close>, which has solved
  and recorded \<open>db.host\<close> and \<open>db.port\<close>: \<open>reset_dimension\<close> of \<open>db.*\<close> expands
  the argument to the two names, but the body of its loop looks up the whole
  argument instead of the expanded name, so it raises and both conflicts stay solved
  and recorded. The same happens for the two names in one string and for the keyword
  \<open>~new\<close>. The sibling loop of \<open>_do_basic\<close> looks up the expanded name.
\<close>

theorem reset_dimension_expanded_names_raise:
  "get_names (state_after (add_dimension scenario_builder ''db.*'')) ''db.*''
     [Missing, New, Changed] = [''db.host'', ''db.port'']
   \<and> reset_dimension (state_after (add_dimension scenario_builder ''db.*'')) ''db.*''
       = Inl (ValueError, state_after (add_dimension scenario_builder ''db.*''))
   \<and> map is_solved (conflicts (state_after (add_dimension scenario_builder ''db.*'')))
       = [True, True, False]
   \<and> operations (state_after (add_dimension scenario_builder ''db.*''))
       = [(Add, [Single 0, Single 1])]
   \<and> reset_dimension (state_after (add_dimension scenario_builder ''db.*''))
        ''db.host db.port''
       = Inl (ValueError, state_after (add_dimension scenario_builder ''db.*''))
   \<and> get_names (state_after (add_dimension scenario_builder ''db.*'')) ''~new''
     [Missing, New, Changed] = [''db.host'', ''db.port'']
   \<and> reset_dimension (state_after (add_dimension scenario_builder ''db.*'')) ''~new''
       = Inl (ValueError, state_after (add_dimension scenario_builder ''db.*''))"
  by code_simp

text \<open>
  What the reset does where the whole argument is the name: for an argument that is
  one literal name \<open>x\<close> of a conflict, \<open>reset_dimension\<close> succeeds, leaves the
  conflict unsolved, removes it from the lists that hold it and removes from the
  \<open>rename\<close> list the pair it is half of, unsolving both sides (at most one pair
  holds it); the other payloads and conflicts stay as they are, and nothing changes
  when the conflict is unsolved and no payload holds it. After \<open>add_dimension\<close> of
  \<open>x\<close> in a state where the conflict is unsolved and no payload holds it,
  \<open>reset_dimension\<close> of \<open>x\<close> gives back every conflict and the contents of every
  operation list; an \<open>add\<close> list that the call created stays in the log, empty.
\<close>

lemma reset_dimension_literal_name:
  assumes "is_literal x" and "CHR '' '' \<notin> set x"
    and "distinct (map cname (conflicts s))"
    and "r < length (conflicts s)" and "cname (conflicts s ! r) = ''/'' @ x"
    and "rename_typed s" and "distinct_lists s"
    and "length (filter (mentions r) (dict_get (operations s) Rename)) \<le> 1"
  shows "(\<exists>s'. reset_dimension s x = Inr s'
           \<and> \<not> is_solved (conflicts s' ! r)
           \<and> dict_keys (operations s') = dict_keys (operations s)
           \<and> (\<forall>k. dict_get (operations s') k = purge r k (dict_get (operations s) k))
           \<and> length (conflicts s') = length (conflicts s)
           \<and> (\<forall>j < length (conflicts s).
                 conflicts s' ! j =
                   (if j = r \<or> affected r s j then (conflicts s ! j)\<lparr>is_solved := False\<rparr>
                    else conflicts s ! j))
           \<and> (\<not> affected r s r \<and> \<not> is_solved (conflicts s ! r) \<longrightarrow>
                 conflicts s' = conflicts s
                 \<and> (\<forall>k. dict_get (operations s') k = dict_get (operations s) k)))
       \<and> (status (conflicts s ! r) \<in> set [New, Changed] \<and> \<not> is_solved (conflicts s ! r)
            \<and> \<not> affected r s r \<longrightarrow>
            (\<exists>s1 s2. add_dimension s x = Inr s1 \<and> reset_dimension s1 x = Inr s2
               \<and> is_solved (conflicts s1 ! r)
               \<and> Single r \<in> set (dict_get (operations s1) Add)
               \<and> conflicts s2 = conflicts s
               \<and> (\<forall>k. dict_get (operations s2) k = dict_get (operations s) k)
               \<and> dict_keys (operations s2) =
                   (if Add \<in> set (dict_keys (operations s)) then dict_keys (operations s)
                    else dict_keys (operations s) @ [Add])))"
proof (intro conjI impI)
  let ?all = "[Missing, New, Changed]"
  have "status (conflicts s ! r) \<in> set ?all"
    by (cases "status (conflicts s ! r)") simp_all
  with assms(3-5) have look: "lookup s x ?all = Some r"
    by (intro lookup_distinct)
  from reset_dimension_literal [OF assms(1,2) look assms(6-8)]
  obtain s' where res: "reset_dimension s x = Inr s'"
    and keys: "dict_keys (operations s') = dict_keys (operations s)"
    and len: "length (conflicts s') = length (conflicts s)"
    and lists: "\<forall>k. dict_get (operations s') k = purge r k (dict_get (operations s) k)"
    and cs: "\<forall>j < length (conflicts s).
                 conflicts s' ! j =
                   (if j = r \<or> affected r s j then (conflicts s ! j)\<lparr>is_solved := False\<rparr>
                    else conflicts s ! j)"
    by blast
  have unsolved: "\<not> is_solved (conflicts s' ! r)"
    using cs assms(4) by simp
  have noop: "\<not> affected r s r \<and> \<not> is_solved (conflicts s ! r) \<longrightarrow>
                 conflicts s' = conflicts s
                 \<and> (\<forall>k. dict_get (operations s') k = dict_get (operations s) k)"
  proof (intro impI conjI allI)
    assume h: "\<not> affected r s r \<and> \<not> is_solved (conflicts s ! r)"
    then have nh: "\<And>k p. p \<in> set (dict_get (operations s) k) \<Longrightarrow> \<not> hits r k p"
      unfolding affected_iff hits_def by (metis mentions.simps(1))
    then have na: "\<And>j. \<not> affected r s j"
      unfolding affected_iff by blast
    show "conflicts s' = conflicts s"
    proof (rule nth_equalityI)
      show "length (conflicts s') = length (conflicts s)" by (rule len)
    next
      fix j
      assume "j < length (conflicts s')"
      with len have "j < length (conflicts s)" by simp
      with cs na h show "conflicts s' ! j = conflicts s ! j"
        by (cases "j = r") simp_all
    qed
    fix k
    show "dict_get (operations s') k = dict_get (operations s) k"
      using lists nh by (simp add: purge_def filter_id_conv)
  qed
  from res unsolved keys lists len cs noop
  show "\<exists>s'. reset_dimension s x = Inr s'
           \<and> \<not> is_solved (conflicts s' ! r)
           \<and> dict_keys (operations s') = dict_keys (operations s)
           \<and> (\<forall>k. dict_get (operations s') k = purge r k (dict_get (operations s) k))
           \<and> length (conflicts s') = length (conflicts s)
           \<and> (\<forall>j < length (conflicts s).
                 conflicts s' ! j =
                   (if j = r \<or> affected r s j then (conflicts s ! j)\<lparr>is_solved := False\<rparr>
                    else conflicts s ! j))
           \<and> (\<not> affected r s r \<and> \<not> is_solved (conflicts s ! r) \<longrightarrow>
                 conflicts s' = conflicts s
                 \<and> (\<forall>k. dict_get (operations s') k = dict_get (operations s) k))"
    by blast
next
  assume h: "status (conflicts s ! r) \<in> set [New, Changed] \<and> \<not> is_solved (conflicts s ! r)
            \<and> \<not> affected r s r"
  then show "\<exists>s1 s2. add_dimension s x = Inr s1 \<and> reset_dimension s1 x = Inr s2
               \<and> is_solved (conflicts s1 ! r)
               \<and> Single r \<in> set (dict_get (operations s1) Add)
               \<and> conflicts s2 = conflicts s
               \<and> (\<forall>k. dict_get (operations s2) k = dict_get (operations s) k)
               \<and> dict_keys (operations s2) =
                   (if Add \<in> set (dict_keys (operations s)) then dict_keys (operations s)
                    else dict_keys (operations s) @ [Add])"
    using assms by (intro add_then_reset) simp_all
qed

lemma reset_dimension_literal_name_example:
  "is_literal ''new'' \<and> CHR '' '' \<notin> set ''new''
   \<and> distinct (map cname (conflicts example_builder))
   \<and> 0 < length (conflicts example_builder)
   \<and> cname (conflicts example_builder ! 0) = ''/'' @ ''new''
   \<and> rename_typed example_builder \<and> distinct_lists example_builder
   \<and> length (filter (mentions 0) (dict_get (operations example_builder) Rename)) \<le> 1
   \<and> status (conflicts example_builder ! 0) \<in> set [New, Changed]
   \<and> \<not> is_solved (conflicts example_builder ! 0)
   \<and> \<not> affected 0 example_builder 0
   \<and> reset_dimension example_builder ''new'' = Inr example_builder
   \<and> reset_dimension (state_after (add_dimension example_builder ''new'')) ''new''
       = Inr (example_builder\<lparr>operations := [(Add, [])]\<rparr>)"
proof -
  have h: "is_literal ''new''" "CHR '' '' \<notin> set ''new''"
    "distinct (map cname (conflicts example_builder))"
    "0 < length (conflicts example_builder)"
    "cname (conflicts example_builder ! 0) = ''/'' @ ''new''"
    "rename_typed example_builder" "distinct_lists example_builder"
    "length (filter (mentions 0) (dict_get (operations example_builder) Rename)) \<le> 1"
    by (simp_all add: is_literal_def example_defs rename_typed_def distinct_lists_def)
  have g: "status (conflicts example_builder ! 0) \<in> set [New, Changed]"
    "\<not> is_solved (conflicts example_builder ! 0)"
    "\<not> affected 0 example_builder 0"
    by (simp_all add: example_defs affected_def)
  have e: "reset_dimension example_builder ''new'' = Inr example_builder"
    "reset_dimension (state_after (add_dimension example_builder ''new'')) ''new''
       = Inr (example_builder\<lparr>operations := [(Add, [])]\<rparr>)"
    by code_simp+
  from reset_dimension_literal_name [OF h] h g e show ?thesis
    by simp
qed

text \<open>
  The state after the reset is not in every respect the state before the add. The
  \<open>add\<close> list that \<open>add_dimension\<close> created stays in the log. And when the conflict
  was already added, a further \<open>add_dimension\<close> changes nothing and the reset then
  leaves the conflict unsolved and unlisted.
\<close>

lemma reset_after_add_not_exact:
  "operations example_builder = []
   \<and> reset_dimension (state_after (add_dimension example_builder ''new'')) ''new''
       = Inr (example_builder\<lparr>operations := [(Add, [])]\<rparr>)
   \<and> is_solved (conflicts (state_after (add_dimension example_builder ''new'')) ! 0)
   \<and> add_dimension (state_after (add_dimension example_builder ''new'')) ''new''
       = Inr (state_after (add_dimension example_builder ''new''))
   \<and> reset_dimension
        (state_after (add_dimension (state_after (add_dimension example_builder ''new'')) ''new''))
        ''new''
       \<noteq> Inr (state_after (add_dimension example_builder ''new''))"
  by code_simp

section \<open>Rename, and reset of a renamed pair\<close>

lemma rename_dimension_lookup:
  "rename_dimension s (old, new) =
     (case lookup s old [Missing] of
        None \<Rightarrow> Inl (ValueError, s)
      | Some i \<Rightarrow>
          (case lookup s new [New] of
             None \<Rightarrow> Inl (ValueError, s)
           | Some j \<Rightarrow>
               Inr (put_operation
                      (s\<lparr>conflicts := set_solved j True (set_solved i True (conflicts s))\<rparr>)
                      Rename (Pair i j))))"
  by (auto simp: rename_dimension_def lookup_def assert_has_status_def Let_def
      split: option.splits)

lemma reset_renamed_pair:
  assumes lit: "is_literal y" "CHR '' '' \<notin> set y"
    and names: "distinct (map cname (conflicts s))"
    and i: "i < length (conflicts s)" and j: "j < length (conflicts s)"
    and r: "r = i \<or> r = j" and y: "cname (conflicts s ! r) = ''/'' @ y"
    and typed: "rename_typed s" and dist: "distinct_lists s"
    and fresh: "list_all (\<lambda>p. \<not> mentions i p \<and> \<not> mentions j p) (dict_get (operations s) Rename)"
    and s1: "s1 = put_operation
                    (s\<lparr>conflicts := set_solved j True (set_solved i True (conflicts s))\<rparr>)
                    Rename (Pair i j)"
  shows "\<exists>s2. reset_dimension s1 y = Inr s2
           \<and> \<not> is_solved (conflicts s2 ! i) \<and> \<not> is_solved (conflicts s2 ! j)
           \<and> Pair i j \<notin> set (dict_get (operations s2) Rename)
           \<and> dict_get (operations s2) Rename = dict_get (operations s) Rename"
proof -
  let ?all = "[Missing, New, Changed]"
  let ?L = "dict_get (operations s) Rename"
  from fresh have fr: "\<forall>p \<in> set ?L. \<not> mentions i p \<and> \<not> mentions j p"
    by (simp add: list_all_iff)
  then have notin: "Pair i j \<notin> set ?L" by auto
  have lists1: "\<And>k. dict_get (operations s1) k =
      (if k = Rename then ?L @ [Pair i j] else dict_get (operations s) k)"
    using notin by (simp add: s1 dict_get_put_operation)
  have rlen: "r < length (conflicts s)" using r i j by auto
  have "status (conflicts s ! r) \<in> set ?all"
    by (cases "status (conflicts s ! r)") simp_all
  with names rlen y have "lookup s y ?all = Some r"
    by (intro lookup_distinct)
  moreover have "conflict_keys (conflicts s1) = conflict_keys (conflicts s)"
    by (simp add: s1)
  ultimately have look1: "lookup s1 y ?all = Some r"
    using lookup_keys by metis
  have typed1: "rename_typed s1"
    using typed by (simp add: rename_typed_def lists1)
  have dist1: "distinct_lists s1"
    using dist notin by (simp add: distinct_lists_def lists1)
  have "filter (mentions r) (?L @ [Pair i j]) = [Pair i j]"
    using fr r by (auto simp: filter_empty_conv)
  then have one1: "length (filter (mentions r) (dict_get (operations s1) Rename)) \<le> 1"
    by (simp add: lists1)
  from reset_dimension_literal [OF lit look1 typed1 dist1 one1]
  obtain s2 where s2: "reset_dimension s1 y = Inr s2"
    and lists2: "\<forall>k. dict_get (operations s2) k = purge r k (dict_get (operations s1) k)"
    and cs2: "\<forall>n < length (conflicts s1).
                 conflicts s2 ! n =
                   (if n = r \<or> affected r s1 n then (conflicts s1 ! n)\<lparr>is_solved := False\<rparr>
                    else conflicts s1 ! n)"
    by blast
  have len1: "length (conflicts s1) = length (conflicts s)"
    by (simp add: s1)
  have "Pair i j \<in> set (dict_get (operations s1) Rename) \<and> hits r Rename (Pair i j)"
    using r by (auto simp: lists1 hits_def)
  then have "affected r s1 i" and "affected r s1 j"
    unfolding affected_iff by (metis mentions.simps(2))+
  with cs2 i j len1 have unsolved: "\<not> is_solved (conflicts s2 ! i)" "\<not> is_solved (conflicts s2 ! j)"
    by simp_all
  have "purge r Rename (?L @ [Pair i j]) = ?L"
    using fr r by (auto simp: purge_def hits_def filter_id_conv)
  with lists2 have rl: "dict_get (operations s2) Rename = ?L"
    by (simp add: lists1)
  with notin s2 unsolved show ?thesis by simp
qed

text \<open>
  C2, amended: \<open>rename_dimension\<close> succeeds exactly when \<open>old\<close> resolves to a
  \<open>missing\<close> conflict and \<open>new\<close> to a \<open>new\<close> conflict, solved or not; when either
  lookup fails it raises \<open>ValueError\<close> and leaves the state as it was. On success
  both conflicts are solved and the pair is in the \<open>rename\<close> list. When no pair of
  the \<open>rename\<close> list held either conflict before, \<open>reset_dimension\<close> on either name
  then unsolves both conflicts and removes the pair, leaving the other pairs.
\<close>

theorem rename_dimension_validity:
  "(rename_dimension s (old, new) = Inl (ValueError, s)
      \<longleftrightarrow> \<not> (\<exists>c \<in> set (conflicts s). cname c = ''/'' @ old \<and> status c = Missing)
          \<or> \<not> (\<exists>c \<in> set (conflicts s). cname c = ''/'' @ new \<and> status c = New))
   \<and> (lookup s old [Missing] = Some i \<and> lookup s new [New] = Some j \<longrightarrow>
        (\<exists>s1. rename_dimension s (old, new) = Inr s1
           \<and> is_solved (conflicts s1 ! i) \<and> is_solved (conflicts s1 ! j)
           \<and> Pair i j \<in> set (dict_get (operations s1) Rename)
           \<and> (is_literal old \<and> CHR '' '' \<notin> set old \<and> is_literal new \<and> CHR '' '' \<notin> set new
                \<and> distinct (map cname (conflicts s)) \<and> rename_typed s \<and> distinct_lists s
                \<and> list_all (\<lambda>p. \<not> mentions i p \<and> \<not> mentions j p)
                     (dict_get (operations s) Rename) \<longrightarrow>
               (\<forall>y \<in> set [old, new].
                  \<exists>s2. reset_dimension s1 y = Inr s2
                     \<and> \<not> is_solved (conflicts s2 ! i) \<and> \<not> is_solved (conflicts s2 ! j)
                     \<and> Pair i j \<notin> set (dict_get (operations s2) Rename)
                     \<and> dict_get (operations s2) Rename = dict_get (operations s) Rename))))
   \<and> ((\<exists>s1. rename_dimension s (old, new) = Inr s1)
        \<longleftrightarrow> (\<exists>c \<in> set (conflicts s). cname c = ''/'' @ old \<and> status c = Missing)
            \<and> (\<exists>c \<in> set (conflicts s). cname c = ''/'' @ new \<and> status c = New))"
proof (intro conjI impI)
  have o: "lookup s old [Missing] = None
      \<longleftrightarrow> \<not> (\<exists>c \<in> set (conflicts s). cname c = ''/'' @ old \<and> status c = Missing)"
    by (simp add: lookup_None)
  have n: "lookup s new [New] = None
      \<longleftrightarrow> \<not> (\<exists>c \<in> set (conflicts s). cname c = ''/'' @ new \<and> status c = New)"
    by (simp add: lookup_None)
  show "rename_dimension s (old, new) = Inl (ValueError, s)
      \<longleftrightarrow> \<not> (\<exists>c \<in> set (conflicts s). cname c = ''/'' @ old \<and> status c = Missing)
          \<or> \<not> (\<exists>c \<in> set (conflicts s). cname c = ''/'' @ new \<and> status c = New)"
    unfolding o [symmetric] n [symmetric]
    by (auto simp: rename_dimension_lookup split: option.splits)
  show "(\<exists>s1. rename_dimension s (old, new) = Inr s1)
        \<longleftrightarrow> (\<exists>c \<in> set (conflicts s). cname c = ''/'' @ old \<and> status c = Missing)
            \<and> (\<exists>c \<in> set (conflicts s). cname c = ''/'' @ new \<and> status c = New)"
    using o n by (auto simp: rename_dimension_lookup split: option.splits)
next
  assume look: "lookup s old [Missing] = Some i \<and> lookup s new [New] = Some j"
  let ?s1 = "put_operation
               (s\<lparr>conflicts := set_solved j True (set_solved i True (conflicts s))\<rparr>)
               Rename (Pair i j)"
  from look have res: "rename_dimension s (old, new) = Inr ?s1"
    by (simp add: rename_dimension_lookup)
  from look lookup_Some [of s old "[Missing]" i] lookup_Some [of s new "[New]" j]
  have i: "i < length (conflicts s)" "cname (conflicts s ! i) = ''/'' @ old"
    and j: "j < length (conflicts s)" "cname (conflicts s ! j) = ''/'' @ new"
    by simp_all
  have solved: "is_solved (conflicts ?s1 ! i)" "is_solved (conflicts ?s1 ! j)"
    using i j by (simp_all add: nth_set_solved)
  have listed: "Pair i j \<in> set (dict_get (operations ?s1) Rename)"
    by (simp add: dict_get_put_operation)
  have reset: "is_literal old \<and> CHR '' '' \<notin> set old \<and> is_literal new \<and> CHR '' '' \<notin> set new
                \<and> distinct (map cname (conflicts s)) \<and> rename_typed s \<and> distinct_lists s
                \<and> list_all (\<lambda>p. \<not> mentions i p \<and> \<not> mentions j p)
                     (dict_get (operations s) Rename) \<longrightarrow>
               (\<forall>y \<in> set [old, new].
                  \<exists>s2. reset_dimension ?s1 y = Inr s2
                     \<and> \<not> is_solved (conflicts s2 ! i) \<and> \<not> is_solved (conflicts s2 ! j)
                     \<and> Pair i j \<notin> set (dict_get (operations s2) Rename)
                     \<and> dict_get (operations s2) Rename = dict_get (operations s) Rename)"
  proof (intro impI ballI)
    fix y
    assume h: "is_literal old \<and> CHR '' '' \<notin> set old \<and> is_literal new \<and> CHR '' '' \<notin> set new
                \<and> distinct (map cname (conflicts s)) \<and> rename_typed s \<and> distinct_lists s
                \<and> list_all (\<lambda>p. \<not> mentions i p \<and> \<not> mentions j p)
                     (dict_get (operations s) Rename)"
      and "y \<in> set [old, new]"
    then consider "y = old" | "y = new" by auto
    then show "\<exists>s2. reset_dimension ?s1 y = Inr s2
                     \<and> \<not> is_solved (conflicts s2 ! i) \<and> \<not> is_solved (conflicts s2 ! j)
                     \<and> Pair i j \<notin> set (dict_get (operations s2) Rename)
                     \<and> dict_get (operations s2) Rename = dict_get (operations s) Rename"
    proof cases
      case 1
      show ?thesis
        by (rule reset_renamed_pair [where r = i]) (use h i j 1 in simp_all)
    next
      case 2
      show ?thesis
        by (rule reset_renamed_pair [where r = j]) (use h i j 2 in simp_all)
    qed
  qed
  from res solved listed reset
  show "\<exists>s1. rename_dimension s (old, new) = Inr s1
           \<and> is_solved (conflicts s1 ! i) \<and> is_solved (conflicts s1 ! j)
           \<and> Pair i j \<in> set (dict_get (operations s1) Rename)
           \<and> (is_literal old \<and> CHR '' '' \<notin> set old \<and> is_literal new \<and> CHR '' '' \<notin> set new
                \<and> distinct (map cname (conflicts s)) \<and> rename_typed s \<and> distinct_lists s
                \<and> list_all (\<lambda>p. \<not> mentions i p \<and> \<not> mentions j p)
                     (dict_get (operations s) Rename) \<longrightarrow>
               (\<forall>y \<in> set [old, new].
                  \<exists>s2. reset_dimension s1 y = Inr s2
                     \<and> \<not> is_solved (conflicts s2 ! i) \<and> \<not> is_solved (conflicts s2 ! j)
                     \<and> Pair i j \<notin> set (dict_get (operations s2) Rename)
                     \<and> dict_get (operations s2) Rename = dict_get (operations s) Rename))"
    by blast
qed


theorem rename_dimension_validity_witness:
  "lookup example_builder ''missing'' [Missing] = Some 2
   \<and> lookup example_builder ''new'' [New] = Some 0
   \<and> is_literal ''missing'' \<and> CHR '' '' \<notin> set ''missing''
   \<and> is_literal ''new'' \<and> CHR '' '' \<notin> set ''new''
   \<and> distinct (map cname (conflicts example_builder))
   \<and> rename_typed example_builder \<and> distinct_lists example_builder
   \<and> list_all (\<lambda>p. \<not> mentions 2 p \<and> \<not> mentions 0 p)
        (dict_get (operations example_builder) Rename)
   \<and> rename_dimension example_builder (''missing'', ''new'')
       = Inr (example_builder
                \<lparr>conflicts := set_solved 0 True (set_solved 2 True (conflicts example_builder)),
                 operations := [(Rename, [Pair 2 0])]\<rparr>)
   \<and> reset_dimension
        (example_builder
           \<lparr>conflicts := set_solved 0 True (set_solved 2 True (conflicts example_builder)),
            operations := [(Rename, [Pair 2 0])]\<rparr>) ''missing''
       = Inr (example_builder\<lparr>operations := [(Rename, [])]\<rparr>)
   \<and> reset_dimension
        (example_builder
           \<lparr>conflicts := set_solved 0 True (set_solved 2 True (conflicts example_builder)),
            operations := [(Rename, [Pair 2 0])]\<rparr>) ''new''
       = Inr (example_builder\<lparr>operations := [(Rename, [])]\<rparr>)
   \<and> rename_dimension example_builder (''changed'', ''new'') = Inl (ValueError, example_builder)"
proof -
  have h: "lookup example_builder ''missing'' [Missing] = Some 2"
    "lookup example_builder ''new'' [New] = Some 0"
    "is_literal ''missing''" "CHR '' '' \<notin> set ''missing''"
    "is_literal ''new''" "CHR '' '' \<notin> set ''new''"
    "distinct (map cname (conflicts example_builder))"
    "rename_typed example_builder" "distinct_lists example_builder"
    "list_all (\<lambda>p. \<not> mentions 2 p \<and> \<not> mentions 0 p)
        (dict_get (operations example_builder) Rename)"
    by (simp_all add: is_literal_def lookup_def example_defs rename_typed_def distinct_lists_def)
  have e: "rename_dimension example_builder (''missing'', ''new'')
       = Inr (example_builder
                \<lparr>conflicts := set_solved 0 True (set_solved 2 True (conflicts example_builder)),
                 operations := [(Rename, [Pair 2 0])]\<rparr>)"
    "reset_dimension
        (example_builder
           \<lparr>conflicts := set_solved 0 True (set_solved 2 True (conflicts example_builder)),
            operations := [(Rename, [Pair 2 0])]\<rparr>) ''missing''
       = Inr (example_builder\<lparr>operations := [(Rename, [])]\<rparr>)"
    "reset_dimension
        (example_builder
           \<lparr>conflicts := set_solved 0 True (set_solved 2 True (conflicts example_builder)),
            operations := [(Rename, [Pair 2 0])]\<rparr>) ''new''
       = Inr (example_builder\<lparr>operations := [(Rename, [])]\<rparr>)"
    "rename_dimension example_builder (''changed'', ''new'') = Inl (ValueError, example_builder)"
    by code_simp+
  from rename_dimension_validity [of example_builder "''missing''" "''new''" 2 0] h e
  show ?thesis by simp
qed

text \<open>
  The claim as stated fails where it asks for unsolved conflicts: after
  \<open>remove_dimension\<close> has solved \<open>missing\<close>, renaming it still succeeds, and the
  conflict is then in the \<open>remove\<close> list and in a pair of the \<open>rename\<close> list.
\<close>

theorem rename_solved_conflict_counterexample:
  "is_solved (conflicts (state_after (remove_dimension example_builder ''missing'')) ! 2)
   \<and> lookup (state_after (remove_dimension example_builder ''missing'')) ''missing'' [Missing]
       = Some 2
   \<and> rename_dimension (state_after (remove_dimension example_builder ''missing''))
        (''missing'', ''new'')
       = Inr (state_after (rename_dimension
                (state_after (remove_dimension example_builder ''missing''))
                (''missing'', ''new'')))
   \<and> operations (state_after (rename_dimension
        (state_after (remove_dimension example_builder ''missing'')) (''missing'', ''new'')))
       = [(Remove, [Single 2]), (Rename, [Pair 2 0])]"
  by code_simp

text \<open>
  Why the pair must be the only one with the conflict: the loop over the \<open>rename\<close>
  list removes from the list it runs over, so the pair after a removed pair is
  skipped. After \<open>cache.ttl\<close> has been renamed to \<open>db.host\<close> and to \<open>db.port\<close>, its
  reset removes the first pair only: \<open>db.port\<close> stays solved and paired.
\<close>

lemma reset_skips_next_pair:
  "run [RenameDimension ''cache.ttl'' ''db.host'', RenameDimension ''cache.ttl'' ''db.port'',
        ResetDimension ''cache.ttl''] scenario_builder
     = scenario_builder
         \<lparr>conflicts := set_solved 1 True (conflicts scenario_builder),
          operations := [(Rename, [Pair 2 1])]\<rparr>"
  by code_simp

section \<open>What holds in every state of a session\<close>

lemma distinct_lists_dict_set:
  assumes "distinct_lists s" and "distinct vs"
  shows "distinct_lists (s\<lparr>conflicts := cs, operations := dict_set (operations s) k vs\<rparr>)"
  using assms by (simp add: distinct_lists_iff dict_get_dict_set_if)

lemma distinct_lists_put_operation:
  "distinct_lists s \<Longrightarrow> distinct_lists (put_operation s k p)"
  by (simp add: distinct_lists_iff dict_get_put_operation)

lemma distinct_lists_conflicts [simp]:
  "distinct_lists (s\<lparr>conflicts := cs\<rparr>) = distinct_lists s"
  by (simp add: distinct_lists_def)

lemma rename_scan_distinct_lists:
  "distinct_lists s \<Longrightarrow> distinct_lists (state_after (rename_scan i arg s))"
proof (induction i arg s rule: rename_scan.induct)
  case (1 i arg s)
  let ?L = "dict_get (operations s) Rename"
  show ?case
  proof (cases "i < length ?L")
    case False
    with "1.prems" show ?thesis by (subst rename_scan.simps) simp
  next
    case True
    show ?thesis
    proof (cases "?L ! i")
      case (Single c)
      with True "1.prems" show ?thesis by (subst rename_scan.simps) simp
    next
      case (Pair old new)
      show ?thesis
      proof (cases "arg = old \<or> arg = new")
        case False
        with "1.IH"(2) [OF True Pair] "1.prems" True Pair show ?thesis
          by (subst rename_scan.simps) simp
      next
        case hit: True
        let ?s1 = "s\<lparr>conflicts := set_solved new False (set_solved old False (conflicts s)),
                     operations := dict_set (operations s) Rename (remove1 (Pair old new) ?L)\<rparr>"
        have "distinct ?L" using "1.prems" by (simp add: distinct_lists_iff)
        then have "distinct_lists ?s1"
          using "1.prems" by (intro distinct_lists_dict_set) simp_all
        from "1.IH"(1) [OF True Pair hit this] True Pair hit show ?thesis
          by (subst rename_scan.simps) simp
      qed
    qed
  qed
qed

lemma remove_from_operations_loop_distinct_lists:
  "distinct_lists s \<Longrightarrow>
     distinct_lists (state_after (remove_from_operations_loop ks arg s))"
proof (induction ks arbitrary: s)
  case Nil
  then show ?case by simp
next
  case (Cons k ks)
  show ?case
  proof (cases "k = Rename")
    case True
    show ?thesis
    proof (cases "rename_scan 0 arg s")
      case (Inl x)
      with rename_scan_distinct_lists [OF Cons.prems, of 0 arg] True show ?thesis
        by (cases x) simp
    next
      case (Inr s1)
      with rename_scan_distinct_lists [OF Cons.prems, of 0 arg] Cons.IH [of s1] True
      show ?thesis by simp
    qed
  next
    case False
    let ?s1 = "s\<lparr>conflicts := set_solved arg False (conflicts s),
                 operations := dict_set (operations s) k
                                 (remove1 (Single arg) (dict_get (operations s) k))\<rparr>"
    have "distinct (dict_get (operations s) k)"
      using Cons.prems by (simp add: distinct_lists_iff)
    then have "distinct_lists ?s1"
      using Cons.prems by (intro distinct_lists_dict_set) simp_all
    with Cons.IH [of s] Cons.IH [of ?s1] Cons.prems False show ?thesis
      by simp
  qed
qed

lemma reset_dimension_loop_distinct_lists:
  "distinct_lists s \<Longrightarrow>
     distinct_lists (state_after (reset_dimension_loop ns arg st s))"
proof (induction ns arbitrary: s)
  case Nil
  then show ?case by simp
next
  case (Cons n ns)
  show ?case
  proof (cases "lookup s arg st")
    case None
    with Cons.prems show ?thesis by (simp add: mark_as_lookup)
  next
    case (Some r)
    let ?s1 = "s\<lparr>conflicts := set_solved r False (conflicts s)\<rparr>"
    have d1: "distinct_lists ?s1" using Cons.prems by simp
    show ?thesis
    proof (cases "remove_from_operations ?s1 r")
      case (Inl x)
      with remove_from_operations_loop_distinct_lists [OF d1, of "dict_keys (operations ?s1)" r]
        Some show ?thesis
        by (cases x) (simp add: mark_as_lookup remove_from_operations_def)
    next
      case (Inr s2)
      with remove_from_operations_loop_distinct_lists [OF d1, of "dict_keys (operations ?s1)" r]
        Some Cons.IH [of s2] show ?thesis
        by (simp add: mark_as_lookup remove_from_operations_def)
    qed
  qed
qed

lemma do_basic_loop_distinct_lists:
  "distinct_lists s \<Longrightarrow> distinct_lists (state_after (do_basic_loop ns st operation s))"
proof (induction ns arbitrary: s)
  case Nil
  then show ?case by simp
next
  case (Cons n ns)
  show ?case
  proof (cases "lookup s n st")
    case None
    with Cons.prems show ?thesis by (simp add: do_basic_loop_Cons)
  next
    case (Some r)
    have "distinct_lists (put_operation (s\<lparr>conflicts := set_solved r True (conflicts s)\<rparr>)
        operation (Single r))"
      using Cons.prems by (intro distinct_lists_put_operation) simp
    from Cons.IH [OF this] Some show ?thesis by (simp add: do_basic_loop_Cons)
  qed
qed

lemma perform_distinct_lists:
  "distinct_lists s \<Longrightarrow> distinct_lists (state_after (perform c s))"
proof (cases c)
  case (AddDimension a)
  assume "distinct_lists s"
  with AddDimension show ?thesis
    by (simp add: add_dimension_def do_basic_def do_basic_loop_distinct_lists)
next
  case (RemoveDimension a)
  assume "distinct_lists s"
  with RemoveDimension show ?thesis
    by (simp add: remove_dimension_def do_basic_def do_basic_loop_distinct_lists)
next
  case (ResetDimension a)
  assume "distinct_lists s"
  with ResetDimension show ?thesis
    by (simp add: reset_dimension_def Let_def reset_dimension_loop_distinct_lists)
next
  case (RenameDimension old new)
  assume "distinct_lists s"
  with RenameDimension show ?thesis
    by (auto simp: rename_dimension_lookup distinct_lists_put_operation split: option.splits)
qed

text \<open>
  In every state of a session on well-formed spaces the names of the conflicts are
  pairwise different, the \<open>rename\<close> list holds pairs only, and no operation list
  holds a payload twice.
\<close>

lemma session_invariants:
  assumes "wf_space parent" and "wf_space child"
  shows "distinct (map cname (conflicts (run calls (init_builder parent child))))
       \<and> rename_typed (run calls (init_builder parent child))
       \<and> distinct_lists (run calls (init_builder parent child))"
proof -
  have d: "\<And>s. distinct_lists s \<Longrightarrow> distinct_lists (run calls s)"
  proof (induction calls)
    case Nil
    then show ?case by simp
  next
    case (Cons c calls)
    then show ?case by (simp add: perform_distinct_lists)
  qed
  have keys: "conflict_keys (conflicts (run calls (init_builder parent child)))
      = conflict_keys (find_conflicts parent child)"
    using run_preserves [of calls "init_builder parent child"] by (simp add: init_builder_def)
  have "map cname (conflicts (run calls (init_builder parent child)))
      = map cname (find_conflicts parent child)"
    by (simp only: map_cname_keys keys)
  then have "distinct (map cname (conflicts (run calls (init_builder parent child))))"
    using distinct_names_find_conflicts [OF assms] by simp
  moreover have "rename_typed (run calls (init_builder parent child))"
    using run_preserves [of calls "init_builder parent child"]
    by (simp add: rename_typed_def init_builder_def)
  moreover have "distinct_lists (run calls (init_builder parent child))"
    by (rule d) (simp add: distinct_lists_def init_builder_def)
  ultimately show ?thesis by blast
qed

end
